theory Spec2Isabelle
  imports Main
begin

section \<open>Data model of QueueManager.ts\<close>

text \<open>
  A JavaScript \<open>number\<close> as far as this program uses one: the timeout of a receive.
  The only producer of timeouts is \<open>parseInt\<close>, whose results are \<open>NaN\<close> or
  integer-valued; \<open>Num n\<close> stands for the double that JavaScript has for the integer
  \<open>n\<close> (the nearest one, or \<open>Infinity\<close>). The model compares a timeout only with
  \<open>1\<close> and \<open>2147483647\<close>, both exact doubles, so the rounding of integers beyond
  \<open>2 ^ 53\<close> changes no comparison made here.
\<close>

datatype jsnumber = NaN | Num int

text \<open>\<open>interface Message { id; content; timestamp? }\<close>. The field \<open>id\<close> is named
  \<open>msg_id\<close>, since \<open>id\<close> is the identity function of HOL.\<close>

record message =
  msg_id :: string
  content :: string
  timestamp :: "nat option"

text \<open>
  The two closures stored in a waiting consumer, as data. Both close over the
  \<open>resolve\<close> function of the promise created by \<open>getMessage\<close>; promises are
  numbered, and a closure names the promise it resolves.
  \<^item> \<open>OnMessage p\<close> is \<open>(message) => resolve(message)\<close>;
  \<^item> \<open>OnReject p\<close> is \<open>() => resolve(null)\<close>.
\<close>

datatype closure = OnMessage nat | OnReject nat

text \<open>\<open>interface WaitingConsumer { resolve; reject; timeoutId }\<close>\<close>

record waiting_consumer =
  resolve :: closure
  reject :: closure
  timeoutId :: nat

text \<open>\<open>interface Queue { messages; waitingConsumers }\<close>\<close>

record queue =
  messages :: "message list"
  waitingConsumers :: "waiting_consumer list"

text \<open>
  Every call of a promise's \<open>resolve\<close> function is recorded with the place of the
  source that made it: through the stored \<open>resolve\<close> field (\<open>addMessage\<close>, line 60),
  through the stored \<open>reject\<close> field (no line of the source), or directly inside the
  \<open>setTimeout\<close> callback (line 93). \<open>outcome\<close> is the argument: a message, or
  \<open>None\<close> for \<open>null\<close>.
\<close>

datatype origin = FromResolve | FromReject | FromTimer

record resolution =
  promise :: nat
  origin :: origin
  outcome :: "message option"

text \<open>
  An armed timer of the Node runtime: the time at which it is due, and the queue
  that its callback closed over. The callback's other captured variables, \<open>timeoutId\<close>
  and the promise's \<open>resolve\<close>, are the timer's own number: \<open>getMessage\<close> creates
  one promise and one timer per waiter, and the model gives both the same number.
\<close>

record timer =
  due :: nat
  owner :: string

text \<open>
  The state of the process: the registry \<open>queues\<close> (the \<open>Map\<close> of the class), the
  runtime's armed timers, the calls of \<open>resolve\<close> made so far (oldest first), the
  next unused timer number and the runtime's clock in milliseconds.
\<close>

record state =
  queues :: "string \<rightharpoonup> queue"
  timers :: "nat \<rightharpoonup> timer"
  trace :: "resolution list"
  next_id :: nat
  now :: nat

definition empty_queue :: queue where
  "empty_queue = \<lparr>messages = [], waitingConsumers = []\<rparr>"

definition init :: state where
  "init = \<lparr>queues = Map.empty, timers = Map.empty, trace = [], next_id = 0, now = 0\<rparr>"

section \<open>The runtime: promises and timers\<close>

text \<open>Calling the \<open>resolve\<close> function of promise \<open>p\<close>. Every call is recorded; the
  value of the promise is the argument of the first call (later calls of a settled
  promise's \<open>resolve\<close> are ignored by JavaScript).\<close>

definition resolve_promise :: "nat \<Rightarrow> origin \<Rightarrow> message option \<Rightarrow> state \<Rightarrow> state" where
  "resolve_promise p via v st =
     st\<lparr>trace := trace st @ [\<lparr>promise = p, origin = via, outcome = v\<rparr>]\<rparr>"

definition resolutions :: "nat \<Rightarrow> state \<Rightarrow> resolution list" where
  "resolutions p st = filter (\<lambda>r. promise r = p) (trace st)"

definition promise_value :: "nat \<Rightarrow> state \<Rightarrow> message option option" where
  "promise_value p st =
     (case resolutions p st of [] \<Rightarrow> None | r # _ \<Rightarrow> Some (outcome r))"

fun invoke :: "closure \<Rightarrow> message option \<Rightarrow> state \<Rightarrow> state" where
  "invoke (OnMessage p) v st = resolve_promise p FromResolve v st"
| "invoke (OnReject p) v st = resolve_promise p FromReject None st"

text \<open>
  Node's \<open>setTimeout(callback, after)\<close>: a delay that is not a number between \<open>1\<close>
  and \<open>TIMEOUT_MAX = 2 ^ 31 - 1\<close> is replaced by \<open>1\<close> (this holds for \<open>NaN\<close>, for
  zero, for negative delays and for delays that do not fit 32 bits). The timer is
  due after the delay; its number is returned.
\<close>

definition TIMEOUT_MAX :: int where
  "TIMEOUT_MAX = 2147483647"

fun timer_delay :: "jsnumber \<Rightarrow> nat" where
  "timer_delay NaN = 1"
| "timer_delay (Num after) = (if 1 \<le> after \<and> after \<le> TIMEOUT_MAX then nat after else 1)"

definition setTimeout :: "string \<Rightarrow> jsnumber \<Rightarrow> state \<Rightarrow> nat \<times> state" where
  "setTimeout queueName after st =
     (next_id st,
      st\<lparr>timers := (timers st)(next_id st \<mapsto> \<lparr>due = now st + timer_delay after, owner = queueName\<rparr>),
         next_id := Suc (next_id st)\<rparr>)"

definition clearTimeout :: "nat \<Rightarrow> state \<Rightarrow> state" where
  "clearTimeout tid st = st\<lparr>timers := (timers st)(tid := None)\<rparr>"

section \<open>QueueManager\<close>

text \<open>\<open>getQueue\<close> (lines 36-44): the queue of a name, created empty on first use.\<close>

definition getQueue :: "string \<Rightarrow> state \<Rightarrow> queue \<times> state" where
  "getQueue queueName st =
     (case queues st queueName of
        None \<Rightarrow> (empty_queue, st\<lparr>queues := (queues st)(queueName \<mapsto> empty_queue)\<rparr>)
      | Some q \<Rightarrow> (q, st))"

text \<open>The source mutates the queue object in place; the model stores the changed
  queue back under its name.\<close>

definition set_queue :: "string \<Rightarrow> queue \<Rightarrow> state \<Rightarrow> state" where
  "set_queue queueName q st = st\<lparr>queues := (queues st)(queueName \<mapsto> q)\<rparr>"

text \<open>\<open>addMessage\<close> (lines 53-65).\<close>

definition addMessage :: "string \<Rightarrow> message \<Rightarrow> state \<Rightarrow> state" where
  "addMessage queueName m st =
     (case getQueue queueName st of
        (q, st1) \<Rightarrow>
          (case waitingConsumers q of
             consumer # rest \<Rightarrow>
               invoke (resolve consumer) (Some m)
                 (clearTimeout (timeoutId consumer)
                   (set_queue queueName (q\<lparr>waitingConsumers := rest\<rparr>) st1))
           | [] \<Rightarrow> set_queue queueName (q\<lparr>messages := messages q @ [m]\<rparr>) st1))"

text \<open>
  The result of \<open>getMessage\<close>: \<open>Promise.resolve(message)\<close>, a promise that already
  holds the message, or the new pending promise of a waiter.
\<close>

datatype reply = Immediate message | Pending nat

text \<open>\<open>getMessage\<close> (lines 75-103). In the waiting branch the timer is armed first
  (line 87), then the consumer is pushed (line 97).\<close>

definition getMessage :: "string \<Rightarrow> jsnumber \<Rightarrow> state \<Rightarrow> reply \<times> state" where
  "getMessage queueName timeout st =
     (case getQueue queueName st of
        (q, st1) \<Rightarrow>
          (case messages q of
             m # rest \<Rightarrow> (Immediate m, set_queue queueName (q\<lparr>messages := rest\<rparr>) st1)
           | [] \<Rightarrow>
               (case setTimeout queueName timeout st1 of
                  (tid, st2) \<Rightarrow>
                    (Pending tid,
                     set_queue queueName
                       (q\<lparr>waitingConsumers := waitingConsumers q @
                            [\<lparr>resolve = OnMessage tid, reject = OnReject tid, timeoutId = tid\<rparr>]\<rparr>)
                       st2))))"

text \<open>\<open>Array.prototype.findIndex\<close>: the first index whose element satisfies the
  predicate, \<open>None\<close> for \<open>-1\<close>.\<close>

fun findIndex :: "('a \<Rightarrow> bool) \<Rightarrow> 'a list \<Rightarrow> nat option" where
  "findIndex P [] = None"
| "findIndex P (x # xs) =
     (if P x then Some 0 else (case findIndex P xs of None \<Rightarrow> None | Some i \<Rightarrow> Some (Suc i)))"

text \<open>\<open>xs.splice(index, 1)\<close>, as the list left behind.\<close>

definition splice1 :: "nat \<Rightarrow> 'a list \<Rightarrow> 'a list" where
  "splice1 index xs = take index xs @ drop (Suc index) xs"

text \<open>
  The callback given to \<open>setTimeout\<close> (lines 87-94), for the waiter numbered
  \<open>tid\<close> of the queue named \<open>queueName\<close>. The call \<open>resolve(null)\<close> of line 93
  stands after the \<open>if\<close>, not inside it. The closure holds the queue object itself;
  the registry never replaces or deletes a queue, so the object is the registry's
  entry of that name.
\<close>

definition timeout_callback :: "string \<Rightarrow> nat \<Rightarrow> state \<Rightarrow> state" where
  "timeout_callback queueName tid st =
     resolve_promise tid FromTimer None
       (case queues st queueName of
          None \<Rightarrow> st
        | Some q \<Rightarrow>
            (case findIndex (\<lambda>c. timeoutId c = tid) (waitingConsumers q) of
               None \<Rightarrow> st
             | Some index \<Rightarrow>
                 set_queue queueName
                   (q\<lparr>waitingConsumers := splice1 index (waitingConsumers q)\<rparr>) st))"

text \<open>The runtime runs the callback of a timer that is armed and due, once; a
  cleared timer never runs.\<close>

definition fire :: "nat \<Rightarrow> state \<Rightarrow> state" where
  "fire tid st =
     (case timers st tid of
        None \<Rightarrow> st
      | Some t \<Rightarrow>
          if due t \<le> now st
          then timeout_callback (owner t) tid (clearTimeout tid st)
          else st)"

text \<open>
  The process is single-threaded: a call of \<open>addMessage\<close>, a call of
  \<open>getMessage\<close> and a timer callback each run to completion. A run is any sequence
  of such steps and of advances of the clock; a \<open>Fire\<close> of a timer that is not armed
  or not yet due does nothing.
\<close>

datatype event = Submit string message | Receive string jsnumber | Fire nat | Tick nat

fun step :: "event \<Rightarrow> state \<Rightarrow> state" where
  "step (Submit queueName m) st = addMessage queueName m st"
| "step (Receive queueName timeout) st = snd (getMessage queueName timeout st)"
| "step (Fire tid) st = fire tid st"
| "step (Tick d) st = st\<lparr>now := now st + d\<rparr>"

fun run :: "event list \<Rightarrow> state \<Rightarrow> state" where
  "run [] st = st"
| "run (e # es) st = run es (step e st)"

section \<open>The HTTP adapter\<close>

subsection \<open>GET /api/:queueName\<close>

text \<open>
  \<open>parseInt(string, 10)\<close> on the strings of the model, which are ASCII: leading white
  space is skipped, one sign is read, and the longest run of decimal digits that
  follows is the number; without a digit there the result is \<open>NaN\<close>. With radix 10 no
  \<open>0x\<close> prefix is recognised. (The Unicode spaces that \<open>parseInt\<close> also skips lie
  outside ASCII.)
\<close>

definition is_white :: "char \<Rightarrow> bool" where
  "is_white c \<longleftrightarrow> c \<in> set [CHR 0x09, CHR 0x0A, CHR 0x0B, CHR 0x0C, CHR 0x0D, CHR '' '']"

definition is_digit :: "char \<Rightarrow> bool" where
  "is_digit c \<longleftrightarrow> c \<in> set ''0123456789''"

definition digit_value :: "char \<Rightarrow> nat" where
  "digit_value c = of_char c - 48"

definition digits_value :: "string \<Rightarrow> nat" where
  "digits_value z = foldl (\<lambda>a c. 10 * a + digit_value c) 0 z"

definition parseInt :: "string \<Rightarrow> jsnumber" where
  "parseInt inputString =
     (let s = dropWhile is_white inputString;
          sign = (if s \<noteq> [] \<and> hd s = CHR ''-'' then - 1 else 1);
          s' = (if s \<noteq> [] \<and> (hd s = CHR ''+'' \<or> hd s = CHR ''-'') then tl s else s);
          z = takeWhile is_digit s'
      in if z = [] then NaN else Num (sign * int (digits_value z)))"

text \<open>
  Lines 62-64: \<open>req.query.timeout ? parseInt(req.query.timeout as string, 10) : 10000\<close>.
  The query parameter is absent (\<open>None\<close>) or a string; the empty string is falsy.
\<close>

definition get_timeout :: "string option \<Rightarrow> jsnumber" where
  "get_timeout q =
     (case q of
        None \<Rightarrow> Num 10000
      | Some s \<Rightarrow> if s \<noteq> [] then parseInt s else Num 10000)"

text \<open>Line 67: the call of the core, whose promise the handler awaits.\<close>

definition get_handler :: "string \<Rightarrow> string option \<Rightarrow> state \<Rightarrow> reply \<times> state" where
  "get_handler queueName q st = getMessage queueName (get_timeout q) st"

subsection \<open>POST /api/:queueName\<close>

text \<open>
  \<open>req.body\<close> as the handler reads it once \<open>express.json()\<close> has parsed the request:
  a string, or an object, of which the handler uses the \<open>content\<close> property when it
  is truthy (\<open>None\<close> when it is absent or falsy) and otherwise the text
  \<open>JSON.stringify(req.body)\<close>, given here with the body.
\<close>

datatype body = StringBody string | ObjectBody "string option" string

fun content_of :: "body \<Rightarrow> string" where
  "content_of (StringBody s) = s"
| "content_of (ObjectBody (Some c) json) = c"
| "content_of (ObjectBody None json) = json"

text \<open>The JSON of the response: \<open>res.status(200).json({ success: true, messageId })\<close>.\<close>

record post_response =
  status :: nat
  success :: bool
  messageId :: string

text \<open>
  The handler (lines 21-44). \<open>uuid\<close> is the value that \<open>randomUUID()\<close> returns and
  \<open>date_now\<close> the value that \<open>Date.now()\<close> returns in this call; both come from the
  platform and are inputs of the model.
\<close>

definition post_handler ::
  "string \<Rightarrow> body \<Rightarrow> string \<Rightarrow> nat \<Rightarrow> state \<Rightarrow> post_response \<times> state" where
  "post_handler queueName b uuid date_now st =
     (let message = \<lparr>msg_id = uuid, content = content_of b, timestamp = Some date_now\<rparr>
      in (\<lparr>status = 200, success = True, messageId = msg_id message\<rparr>,
          addMessage queueName message st))"

section \<open>Notions used in the statements\<close>

text \<open>The queue that a name stands for: the registry's entry, or the empty queue
  that \<open>getQueue\<close> creates on first use.\<close>

definition queue_of :: "state \<Rightarrow> string \<Rightarrow> queue" where
  "queue_of st queueName = (case queues st queueName of None \<Rightarrow> empty_queue | Some q \<Rightarrow> q)"

text \<open>No queue of the registry holds messages and waiters at once.\<close>

definition steady :: "state \<Rightarrow> bool" where
  "steady st \<longleftrightarrow>
     (\<forall>n q. queues st n = Some q \<longrightarrow> messages q = [] \<or> waitingConsumers q = [])"

abbreviation waiters :: "state \<Rightarrow> string \<Rightarrow> waiting_consumer list" where
  "waiters st n \<equiv> waitingConsumers (queue_of st n)"

abbreviation backlog :: "state \<Rightarrow> string \<Rightarrow> message list" where
  "backlog st n \<equiv> messages (queue_of st n)"

text \<open>
  Three facts that hold in every state reached from \<open>init\<close>, together \<open>wf\<close>:
  the waiters of a queue have distinct timers, each still armed and owned by that
  queue, and store the two closures of their own promise; an armed timer has a number
  already given out and its waiter is in the list of its queue; and a promise has one
  recorded resolution when its number was given out and its timer is no longer
  armed, and none otherwise.
\<close>

definition wf_waiters :: "state \<Rightarrow> bool" where
  "wf_waiters st \<longleftrightarrow>
     (\<forall>n. distinct (map timeoutId (waiters st n)) \<and>
          (\<forall>c\<in>set (waiters st n).
             resolve c = OnMessage (timeoutId c) \<and> reject c = OnReject (timeoutId c) \<and>
             (\<exists>t. timers st (timeoutId c) = Some t \<and> owner t = n)))"

definition wf_timers :: "state \<Rightarrow> bool" where
  "wf_timers st \<longleftrightarrow>
     (\<forall>tid t. timers st tid = Some t \<longrightarrow>
        tid < next_id st \<and> tid \<in> timeoutId ` set (waiters st (owner t)))"

definition wf_trace :: "state \<Rightarrow> bool" where
  "wf_trace st \<longleftrightarrow>
     (\<forall>p. length (resolutions p st) = (if p < next_id st \<and> timers st p = None then 1 else 0))"

definition wf :: "state \<Rightarrow> bool" where
  "wf st \<longleftrightarrow> wf_waiters st \<and> wf_timers st \<and> wf_trace st"

text \<open>Both resolutions of a waiter have the same effect on the state: the waiter
  leaves its queue's list, its timer is no longer armed, and one call of \<open>resolve\<close> is
  recorded.\<close>

definition remove_waiter :: "string \<Rightarrow> nat \<Rightarrow> resolution \<Rightarrow> state \<Rightarrow> state" where
  "remove_waiter n tid r st =
     st\<lparr>queues := (queues st)(n \<mapsto> (queue_of st n)\<lparr>waitingConsumers :=
            filter (\<lambda>c. timeoutId c \<noteq> tid) (waiters st n)\<rparr>),
        timers := (timers st)(tid := None),
        trace := trace st @ [r]\<rparr>"

text \<open>Submits of the messages \<open>ms\<close> to one queue, in order, and receives on one
  queue with the timeouts \<open>ts\<close>, in order, with their replies.\<close>

fun submits :: "string \<Rightarrow> message list \<Rightarrow> state \<Rightarrow> state" where
  "submits n [] st = st"
| "submits n (m # ms) st = submits n ms (addMessage n m st)"

fun receives :: "string \<Rightarrow> jsnumber list \<Rightarrow> state \<Rightarrow> reply list \<times> state" where
  "receives n [] st = ([], st)"
| "receives n (t # ts) st =
     (case getMessage n t st of
        (r, st1) \<Rightarrow> (case receives n ts st1 of (rs, st2) \<Rightarrow> (r # rs, st2)))"

text \<open>
  The waiters of every queue stand in the order of their registration: timer numbers
  are given out in increasing order, one per registration, and along a waiter list
  they increase strictly.
\<close>

definition ordered :: "state \<Rightarrow> bool" where
  "ordered st \<longleftrightarrow>
     (\<forall>n. sorted_wrt (\<lambda>a b. timeoutId a < timeoutId b) (waiters st n))"

text \<open>The two kinds of resolution: a message passed through the stored \<open>resolve\<close>,
  and \<open>null\<close> passed by the timer's callback.\<close>

definition delivered :: "resolution \<Rightarrow> bool" where
  "delivered r \<longleftrightarrow> origin r = FromResolve \<and> outcome r \<noteq> None"

definition timed_out :: "resolution \<Rightarrow> bool" where
  "timed_out r \<longleftrightarrow> origin r = FromTimer \<and> outcome r = None"

text \<open>The latest time at which an armed timer is due (the clock's time when none is
  armed), and the events by which the clock reaches it and every timer that is then
  due runs.\<close>

definition latest_due :: "state \<Rightarrow> nat" where
  "latest_due st =
     foldr max (map (\<lambda>tid. case timers st tid of None \<Rightarrow> 0 | Some t \<Rightarrow> due t)
                  [0..<next_id st]) (now st)"

definition expiry_events :: "state \<Rightarrow> event list" where
  "expiry_events st = Tick (latest_due st - now st) # map Fire [0..<next_id st]"

text \<open>Every armed timer is due.\<close>

definition all_due :: "state \<Rightarrow> bool" where
  "all_due st \<longleftrightarrow> (\<forall>tid t. timers st tid = Some t \<longrightarrow> due t \<le> now st)"

section \<open>Concrete runs\<close>

text \<open>The concrete messages and runs at which the theorems below are instantiated.
  \<open>order i c\<close> is a message with id \<open>i\<close> and content \<open>c\<close>.\<close>

definition order :: "string \<Rightarrow> string \<Rightarrow> message" where
  "order i c = \<lparr>msg_id = i, content = c, timestamp = None\<rparr>"

definition two_waiting :: state where
  "two_waiting = run [Receive ''orders'' (Num 5000), Receive ''orders'' (Num 100)] init"

definition one_queued :: state where
  "one_queued = run [Submit ''orders'' (order ''1'' ''Order #1'')] init"

definition isolated_waiting :: state where
  "isolated_waiting = run [Receive ''b'' (Num 5000), Receive ''a'' (Num 100), Tick 100] init"

definition isolated_queued :: state where
  "isolated_queued = run [Submit ''b'' (order ''1'' ''for b''), Submit ''a'' (order ''2'' ''for a'')] init"

definition one_of_each :: state where
  "one_of_each = run [Receive ''orders'' (Num 5000), Receive ''orders'' (Num 100),
     Receive ''orders'' (Num 0), Submit ''orders'' (order ''7'' ''hello''), Tick 100, Fire 1] init"

definition race_submit_first :: state where
  "race_submit_first =
     run [Tick 100, Submit ''orders'' (order ''7'' ''hello''), Fire 0]
       (snd (getMessage ''orders'' (Num 100) init))"

definition race_timer_first :: state where
  "race_timer_first =
     run [Tick 100, Fire 0, Submit ''orders'' (order ''7'' ''hello'')]
       (snd (getMessage ''orders'' (Num 100) init))"

definition delivered_state :: state where
  "delivered_state =
     run [Receive ''orders'' (Num 5000), Submit ''orders'' (order ''7'' ''hello'')] init"

definition early_expiry :: state where
  "early_expiry =
     run [Tick 1, Fire 0] (snd (get_handler ''orders'' (Some ''2147483648'') init))"

definition expired_state :: state where
  "expired_state = run [Tick 100, Fire 0] (snd (getMessage ''orders'' (Num 100) init))"

definition overdue_state :: state where
  "overdue_state = run [Tick 100] (snd (getMessage ''orders'' (Num 100) init))"

section \<open>Effects of the operations\<close>

lemma queue_of_simps [simp]:
  "messages empty_queue = []" "waitingConsumers empty_queue = []"
  by (simp_all add: empty_queue_def)

lemma addMessage_handoff:
  assumes "waitingConsumers (queue_of st n) = c # rest"
  shows "addMessage n m st =
    invoke (resolve c) (Some m)
      (st\<lparr>queues := (queues st)(n \<mapsto> (queue_of st n)\<lparr>waitingConsumers := rest\<rparr>),
          timers := (timers st)(timeoutId c := None)\<rparr>)"
  using assms
  by (auto simp: addMessage_def getQueue_def queue_of_def set_queue_def clearTimeout_def
      split: option.splits)

lemma addMessage_enqueue:
  assumes "waitingConsumers (queue_of st n) = []"
  shows "addMessage n m st =
    st\<lparr>queues := (queues st)(n \<mapsto> (queue_of st n)\<lparr>messages := messages (queue_of st n) @ [m]\<rparr>)\<rparr>"
  using assms
  by (auto simp: addMessage_def getQueue_def queue_of_def set_queue_def
      split: option.splits)

lemma getMessage_immediate:
  assumes "messages (queue_of st n) = m # rest"
  shows "getMessage n t st =
    (Immediate m, st\<lparr>queues := (queues st)(n \<mapsto> (queue_of st n)\<lparr>messages := rest\<rparr>)\<rparr>)"
  using assms
  by (auto simp: getMessage_def getQueue_def queue_of_def set_queue_def
      split: option.splits)

lemma getMessage_wait:
  assumes "messages (queue_of st n) = []"
  shows "getMessage n t st =
    (Pending (next_id st),
     st\<lparr>queues := (queues st)(n \<mapsto> (queue_of st n)\<lparr>waitingConsumers :=
            waitingConsumers (queue_of st n) @
              [\<lparr>resolve = OnMessage (next_id st), reject = OnReject (next_id st),
                timeoutId = next_id st\<rparr>]\<rparr>),
         timers := (timers st)(next_id st \<mapsto> \<lparr>due = now st + timer_delay t, owner = n\<rparr>),
         next_id := Suc (next_id st)\<rparr>)"
  using assms
  by (auto simp: getMessage_def getQueue_def queue_of_def set_queue_def setTimeout_def
      split: option.splits)

section \<open>Backlog and waiters are never both non-empty\<close>

lemma findIndex_None: "findIndex P xs = None \<longleftrightarrow> (\<forall>x\<in>set xs. \<not> P x)"
  by (induction xs) (auto split: option.splits)

lemma findIndex_splice1:
  "distinct (map f xs) \<Longrightarrow> findIndex (\<lambda>c. f c = k) xs = Some i \<Longrightarrow>
   splice1 i xs = filter (\<lambda>c. f c \<noteq> k) xs"
proof (induction xs arbitrary: i)
  case Nil
  then show ?case by simp
next
  case (Cons x xs)
  show ?case
  proof (cases "f x = k")
    case True
    with Cons.prems have "i = 0" by simp
    moreover from Cons.prems have "f x \<notin> f ` set xs" by simp
    with True have "\<forall>c\<in>set xs. f c \<noteq> k" by blast
    then have "filter (\<lambda>c. f c \<noteq> k) xs = xs" by (simp add: filter_id_conv)
    ultimately show ?thesis using True by (simp add: splice1_def)
  next
    case False
    with Cons.prems obtain j where j: "findIndex (\<lambda>c. f c = k) xs = Some j" "i = Suc j"
      by (auto split: option.splits)
    with Cons.IH [of j] Cons.prems have "splice1 j xs = filter (\<lambda>c. f c \<noteq> k) xs" by simp
    with j False show ?thesis by (simp add: splice1_def)
  qed
qed

text \<open>What the callback of a due timer does to a queue whose waiters are distinct.\<close>

lemma timeout_callback_effect:
  assumes "distinct (map timeoutId (waitingConsumers (queue_of st n)))"
  shows "timeout_callback n tid st =
    (if tid \<in> timeoutId ` set (waitingConsumers (queue_of st n))
     then st\<lparr>queues := (queues st)(n \<mapsto> (queue_of st n)\<lparr>waitingConsumers :=
                 filter (\<lambda>c. timeoutId c \<noteq> tid) (waitingConsumers (queue_of st n))\<rparr>),
             trace := trace st @ [\<lparr>promise = tid, origin = FromTimer, outcome = None\<rparr>]\<rparr>
     else st\<lparr>trace := trace st @ [\<lparr>promise = tid, origin = FromTimer, outcome = None\<rparr>]\<rparr>)"
proof (cases "queues st n")
  case None
  then show ?thesis
    by (simp add: timeout_callback_def queue_of_def resolve_promise_def)
next
  case (Some q)
  then have q: "queue_of st n = q" by (simp add: queue_of_def)
  show ?thesis
  proof (cases "findIndex (\<lambda>c. timeoutId c = tid) (waitingConsumers q)")
    case None
    then have "tid \<notin> timeoutId ` set (waitingConsumers q)"
      by (auto simp: findIndex_None)
    with None Some q show ?thesis
      by (simp add: timeout_callback_def resolve_promise_def)
  next
    case (Some i)
    then have "tid \<in> timeoutId ` set (waitingConsumers q)"
      using findIndex_None [of "\<lambda>c. timeoutId c = tid" "waitingConsumers q"] by auto
    moreover have "splice1 i (waitingConsumers q) =
        filter (\<lambda>c. timeoutId c \<noteq> tid) (waitingConsumers q)"
      using findIndex_splice1 [of timeoutId "waitingConsumers q" tid i] assms q Some by simp
    ultimately show ?thesis using Some \<open>queues st n = Some q\<close> q
      by (simp add: timeout_callback_def resolve_promise_def set_queue_def)
  qed
qed

lemma steady_queue_of: "steady st \<Longrightarrow> messages (queue_of st n) = [] \<or> waitingConsumers (queue_of st n) = []"
  by (auto simp: steady_def queue_of_def split: option.splits)

lemma steady_init: "steady init"
  by (simp add: steady_def init_def)

lemma invoke_queues [simp]: "queues (invoke k v st) = queues st"
  by (cases k) (simp_all add: resolve_promise_def)

lemma steady_addMessage: "steady st \<Longrightarrow> steady (addMessage n m st)"
proof (cases "waitingConsumers (queue_of st n)")
  case Nil
  assume "steady st"
  with Nil show ?thesis
    by (auto simp: addMessage_enqueue steady_def queue_of_def split: option.splits)
next
  case (Cons c rest)
  assume s: "steady st"
  with Cons steady_queue_of [OF s, of n] have "messages (queue_of st n) = []" by simp
  with s Cons show ?thesis
    by (auto simp: addMessage_handoff steady_def)
qed

lemma steady_getMessage: "steady st \<Longrightarrow> steady (snd (getMessage n t st))"
proof (cases "messages (queue_of st n)")
  case Nil
  assume "steady st"
  with Nil show ?thesis
    by (auto simp: getMessage_wait steady_def)
next
  case (Cons m rest)
  assume s: "steady st"
  with Cons steady_queue_of [OF s, of n] have "waitingConsumers (queue_of st n) = []" by simp
  with s Cons show ?thesis
    by (auto simp: getMessage_immediate steady_def)
qed

lemma splice1_Nil [simp]: "splice1 i [] = []"
  by (simp add: splice1_def)

lemma steady_timeout_callback:
  assumes "steady st"
  shows "steady (timeout_callback n tid st)"
proof (cases "queues st n")
  case None
  with assms show ?thesis
    by (simp add: timeout_callback_def steady_def resolve_promise_def)
next
  case (Some q)
  with assms have q: "messages q = [] \<or> waitingConsumers q = []"
    by (simp add: steady_def)
  then have "messages q = [] \<or> splice1 i (waitingConsumers q) = []" for i
    by auto
  with assms Some show ?thesis
    by (auto simp: timeout_callback_def steady_def resolve_promise_def set_queue_def
        split: option.splits)
qed

lemma steady_fire: "steady st \<Longrightarrow> steady (fire tid st)"
proof -
  assume s: "steady st"
  have "steady (clearTimeout tid st)" using s by (simp add: steady_def clearTimeout_def)
  then show ?thesis using s
    by (auto simp: fire_def steady_timeout_callback split: option.splits)
qed

lemma steady_tick: "steady st \<Longrightarrow> steady (st\<lparr>now := t\<rparr>)"
  by (simp add: steady_def)

lemma steady_step: "steady st \<Longrightarrow> steady (step e st)"
  by (cases e) (simp_all add: steady_addMessage steady_getMessage steady_fire steady_tick)

lemma steady_run: "steady st \<Longrightarrow> steady (run es st)"
  by (induction es arbitrary: st) (auto simp: steady_step)

section \<open>Waiters, timers and resolutions in reachable states\<close>

lemma queue_of_update [simp]:
  "queue_of (st\<lparr>queues := (queues st)(n \<mapsto> q)\<rparr>) n' = (if n' = n then q else queue_of st n')"
  by (simp add: queue_of_def)

lemma queue_of_other_fields [simp]:
  "queue_of (st\<lparr>timers := ts\<rparr>) = queue_of st"
  "queue_of (st\<lparr>trace := tr\<rparr>) = queue_of st"
  "queue_of (st\<lparr>next_id := i\<rparr>) = queue_of st"
  "queue_of (st\<lparr>now := t\<rparr>) = queue_of st"
  by (simp_all add: queue_of_def fun_eq_iff)

lemma resolutions_simps [simp]:
  "resolutions p (st\<lparr>queues := qs\<rparr>) = resolutions p st"
  "resolutions p (st\<lparr>timers := ts\<rparr>) = resolutions p st"
  "resolutions p (st\<lparr>next_id := i\<rparr>) = resolutions p st"
  "resolutions p (st\<lparr>now := t\<rparr>) = resolutions p st"
  "resolutions p (st\<lparr>trace := trace st @ [r]\<rparr>) =
     (if promise r = p then resolutions p st @ [r] else resolutions p st)"
  by (simp_all add: resolutions_def)

lemma wf_init: "wf init"
  by (simp add: wf_def wf_waiters_def wf_timers_def wf_trace_def init_def queue_of_def
      resolutions_def)

lemma wf_waiterD:
  assumes "wf st" "c \<in> set (waiters st n)"
  shows "resolve c = OnMessage (timeoutId c)" "reject c = OnReject (timeoutId c)"
    "\<exists>t. timers st (timeoutId c) = Some t \<and> owner t = n" "timeoutId c < next_id st"
    "resolutions (timeoutId c) st = []"
proof -
  from assms show r: "resolve c = OnMessage (timeoutId c)" "reject c = OnReject (timeoutId c)"
    "\<exists>t. timers st (timeoutId c) = Some t \<and> owner t = n"
    by (auto simp: wf_def wf_waiters_def)
  then obtain t where t: "timers st (timeoutId c) = Some t" by blast
  with assms show "timeoutId c < next_id st" by (auto simp: wf_def wf_timers_def)
  from assms have "length (resolutions (timeoutId c) st) =
      (if timeoutId c < next_id st \<and> timers st (timeoutId c) = None then 1 else 0)"
    unfolding wf_def wf_trace_def by blast
  with t show "resolutions (timeoutId c) st = []" by simp
qed

lemma wf_waiters_owner:
  assumes "wf st" "c \<in> set (waiters st n)" "c' \<in> set (waiters st n')" "timeoutId c = timeoutId c'"
  shows "n = n'"
  using wf_waiterD(3) [OF assms(1,2)] wf_waiterD(3) [OF assms(1,3)] assms(4) by auto

lemma wf_distinct: "wf st \<Longrightarrow> distinct (map timeoutId (waiters st n))"
  by (simp add: wf_def wf_waiters_def)

lemma addMessage_remove_waiter:
  assumes "wf st" "waiters st n = c # rest"
  shows "addMessage n m st =
     remove_waiter n (timeoutId c)
       \<lparr>promise = timeoutId c, origin = FromResolve, outcome = Some m\<rparr> st"
proof -
  from assms have c: "c \<in> set (waiters st n)" by simp
  from wf_distinct [OF assms(1), of n] assms(2)
  have "timeoutId c \<notin> timeoutId ` set rest" by simp
  then have "\<forall>x\<in>set rest. timeoutId x \<noteq> timeoutId c" by (metis image_eqI)
  then have "filter (\<lambda>x. timeoutId x \<noteq> timeoutId c) rest = rest"
    by (simp add: filter_id_conv)
  with assms(2) wf_waiterD(1) [OF assms(1) c] show ?thesis
    by (simp add: addMessage_handoff resolve_promise_def remove_waiter_def)
qed

lemma fire_remove_waiter:
  assumes "wf st" "timers st tid = Some t" "due t \<le> now st"
  shows "fire tid st =
     remove_waiter (owner t) tid \<lparr>promise = tid, origin = FromTimer, outcome = None\<rparr> st"
proof -
  from assms have "tid \<in> timeoutId ` set (waiters st (owner t))"
    by (simp add: wf_def wf_timers_def)
  then show ?thesis
    using assms(2,3) wf_distinct [OF assms(1), of "owner t"]
    by (simp add: fire_def clearTimeout_def timeout_callback_effect remove_waiter_def)
qed

lemma fire_idle:
  "timers st tid = None \<or> (\<exists>t. timers st tid = Some t \<and> now st < due t) \<Longrightarrow> fire tid st = st"
  by (auto simp: fire_def split: option.splits)

lemma wf_remove_waiter:
  assumes "wf st" "timers st tid = Some t" "owner t = n" "promise r = tid"
  shows "wf (remove_waiter n tid r st)"
proof -
  let ?st = "remove_waiter n tid r st"
  have ws: "waiters ?st n' = (if n' = n then filter (\<lambda>c. timeoutId c \<noteq> tid) (waiters st n)
      else waiters st n')" for n'
    by (simp add: remove_waiter_def)
  have ts: "timers ?st = (timers st)(tid := None)" and ni: "next_id ?st = next_id st"
    by (simp_all add: remove_waiter_def)
  have rs: "resolutions p ?st = (if p = tid then resolutions p st @ [r] else resolutions p st)" for p
    using assms(4) by (auto simp: remove_waiter_def resolutions_def)
  have sub: "c \<in> set (waiters st n') \<and> timeoutId c \<noteq> tid" if "c \<in> set (waiters ?st n')" for c n'
  proof (cases "n' = n")
    case True
    with that show ?thesis by (simp add: ws)
  next
    case False
    with that have c: "c \<in> set (waiters st n')" by (simp add: ws)
    from wf_waiterD(3) [OF assms(1) c] assms(2,3) False have "timeoutId c \<noteq> tid" by auto
    with c show ?thesis by simp
  qed
  have w: "wf_waiters ?st"
    unfolding wf_waiters_def
  proof (intro allI conjI ballI)
    fix n'
    show "distinct (map timeoutId (waiters ?st n'))"
      using wf_distinct [OF assms(1)] by (simp add: ws distinct_map_filter)
  next
    fix n' c assume "c \<in> set (waiters ?st n')"
    from sub [OF this] have c: "c \<in> set (waiters st n')" and ne: "timeoutId c \<noteq> tid" by simp_all
    from wf_waiterD [OF assms(1) c] ne
    show "resolve c = OnMessage (timeoutId c)" "reject c = OnReject (timeoutId c)"
      "\<exists>t. timers ?st (timeoutId c) = Some t \<and> owner t = n'"
      by (simp_all add: ts)
  qed
  have t: "wf_timers ?st"
    unfolding wf_timers_def
  proof (intro allI impI)
    fix tid' t' assume "timers ?st tid' = Some t'"
    then have ne: "tid' \<noteq> tid" and t': "timers st tid' = Some t'"
      by (auto simp: ts split: if_splits)
    from assms(1) t' have lt: "tid' < next_id st"
      and "tid' \<in> timeoutId ` set (waiters st (owner t'))"
      by (auto simp: wf_def wf_timers_def)
    with ne have "tid' \<in> timeoutId ` set (waiters ?st (owner t'))"
      by (auto simp: ws)
    with lt show "tid' < next_id ?st \<and> tid' \<in> timeoutId ` set (waiters ?st (owner t'))"
      by (simp add: ni)
  qed
  from assms(1,2) have lt: "tid < next_id st" by (auto simp: wf_def wf_timers_def)
  from assms(1) have len: "length (resolutions p st) =
      (if p < next_id st \<and> timers st p = None then 1 else 0)" for p
    unfolding wf_def wf_trace_def by blast
  have r: "wf_trace ?st"
    unfolding wf_trace_def
  proof
    fix p
    show "length (resolutions p ?st) = (if p < next_id ?st \<and> timers ?st p = None then 1 else 0)"
      using len [of p] len [of tid] lt assms(2) by (auto simp: rs ts ni)
  qed
  from w t r show ?thesis by (simp add: wf_def)
qed

lemma wf_addMessage:
  assumes "wf st"
  shows "wf (addMessage n m st)"
proof (cases "waiters st n")
  case Nil
  have w: "wf_waiters (addMessage n m st)"
    using assms Nil by (auto simp: addMessage_enqueue wf_def wf_waiters_def)
  have "tid \<in> timeoutId ` set (waiters st (owner t))" if "timers st tid = Some t" for tid t
    using assms that unfolding wf_def wf_timers_def by blast
  then have t: "wf_timers (addMessage n m st)"
    using assms Nil by (fastforce simp: addMessage_enqueue wf_def wf_timers_def)
  have r: "wf_trace (addMessage n m st)"
    using assms Nil by (simp add: addMessage_enqueue wf_def wf_trace_def)
  from w t r show ?thesis by (simp add: wf_def)
next
  case (Cons c rest)
  then have c: "c \<in> set (waiters st n)" by simp
  from wf_waiterD(3) [OF assms c] obtain t where "timers st (timeoutId c) = Some t" "owner t = n"
    by blast
  then show ?thesis
    using wf_remove_waiter [OF assms, of "timeoutId c" t n] addMessage_remove_waiter [OF assms Cons]
    by simp
qed

lemma wf_fire:
  assumes "wf st"
  shows "wf (fire tid st)"
proof (cases "timers st tid")
  case None
  with assms show ?thesis by (simp add: fire_idle)
next
  case (Some t)
  show ?thesis
  proof (cases "due t \<le> now st")
    case True
    with assms Some show ?thesis
      using wf_remove_waiter [OF assms Some, of "owner t"] by (simp add: fire_remove_waiter)
  next
    case False
    with Some assms show ?thesis by (simp add: fire_idle)
  qed
qed

lemma wf_getMessage:
  assumes "wf st"
  shows "wf (snd (getMessage n t st))"
proof (cases "backlog st n")
  case (Cons m rest)
  have w: "wf_waiters (snd (getMessage n t st))"
    using assms Cons by (auto simp: getMessage_immediate wf_def wf_waiters_def)
  have "tid \<in> timeoutId ` set (waiters st (owner t))" if "timers st tid = Some t" for tid t
    using assms that unfolding wf_def wf_timers_def by blast
  then have t: "wf_timers (snd (getMessage n t st))"
    using assms Cons by (fastforce simp: getMessage_immediate wf_def wf_timers_def)
  have r: "wf_trace (snd (getMessage n t st))"
    using assms Cons by (simp add: getMessage_immediate wf_def wf_trace_def)
  from w t r show ?thesis by (simp add: wf_def)
next
  case Nil
  let ?st = "snd (getMessage n t st)"
  let ?c = "\<lparr>resolve = OnMessage (next_id st), reject = OnReject (next_id st),
                timeoutId = next_id st\<rparr>"
  have ws: "waiters ?st n' = (if n' = n then waiters st n @ [?c] else waiters st n')" for n'
    using Nil by (simp add: getMessage_wait)
  have ts: "timers ?st = (timers st)(next_id st \<mapsto> \<lparr>due = now st + timer_delay t, owner = n\<rparr>)"
    and ni: "next_id ?st = Suc (next_id st)"
    and rs: "resolutions p ?st = resolutions p st" for p
    using Nil by (simp_all add: getMessage_wait)
  have old: "timeoutId c \<noteq> next_id st" if "c \<in> set (waiters st n')" for c n'
    using wf_waiterD(4) [OF assms that] by simp
  then have old': "next_id st \<notin> timeoutId ` set (waiters st n')" for n'
    by force
  have w: "wf_waiters ?st"
    unfolding wf_waiters_def
  proof (intro allI conjI ballI)
    fix n'
    show "distinct (map timeoutId (waiters ?st n'))"
      using wf_distinct [OF assms, of n'] old' [of n'] by (auto simp: ws)
  next
    fix n' c assume c: "c \<in> set (waiters ?st n')"
    show "resolve c = OnMessage (timeoutId c)" "reject c = OnReject (timeoutId c)"
      "\<exists>t. timers ?st (timeoutId c) = Some t \<and> owner t = n'"
    proof -
      consider "c = ?c" "n' = n" | "c \<in> set (waiters st n')"
        using c by (auto simp: ws split: if_splits)
      then have "resolve c = OnMessage (timeoutId c) \<and> reject c = OnReject (timeoutId c) \<and>
          (\<exists>t. timers ?st (timeoutId c) = Some t \<and> owner t = n')"
      proof cases
        case 1
        then show ?thesis by (simp add: ts)
      next
        case 2
        from wf_waiterD [OF assms 2] old [OF 2] show ?thesis by (simp add: ts)
      qed
      then show "resolve c = OnMessage (timeoutId c)" "reject c = OnReject (timeoutId c)"
        "\<exists>t. timers ?st (timeoutId c) = Some t \<and> owner t = n'" by simp_all
    qed
  qed
  have t: "wf_timers ?st"
    unfolding wf_timers_def
  proof (intro allI impI)
    fix tid' t' assume a: "timers ?st tid' = Some t'"
    show "tid' < next_id ?st \<and> tid' \<in> timeoutId ` set (waiters ?st (owner t'))"
    proof (cases "tid' = next_id st")
      case True
      with a show ?thesis by (auto simp: ts ni ws)
    next
      case False
      with a have "timers st tid' = Some t'" by (simp add: ts)
      with assms have "tid' < next_id st" "tid' \<in> timeoutId ` set (waiters st (owner t'))"
        by (auto simp: wf_def wf_timers_def)
      then show ?thesis by (auto simp: ni ws)
    qed
  qed
  from assms have len: "length (resolutions p st) =
      (if p < next_id st \<and> timers st p = None then 1 else 0)" for p
    unfolding wf_def wf_trace_def by blast
  have r: "wf_trace ?st"
    unfolding wf_trace_def
  proof
    fix p
    show "length (resolutions p ?st) = (if p < next_id ?st \<and> timers ?st p = None then 1 else 0)"
      using len [of p] by (auto simp: rs ts ni)
  qed
  from w t r show ?thesis by (simp add: wf_def)
qed

lemma wf_tick: "wf st \<Longrightarrow> wf (st\<lparr>now := t\<rparr>)"
  by (simp add: wf_def wf_waiters_def wf_timers_def wf_trace_def)

lemma wf_step: "wf st \<Longrightarrow> wf (step e st)"
  by (cases e) (simp_all add: wf_addMessage wf_getMessage wf_fire wf_tick)

lemma wf_run: "wf st \<Longrightarrow> wf (run es st)"
  by (induction es arbitrary: st) (simp_all add: wf_step)

section \<open>Order of delivery\<close>

lemma submits_backlog:
  "waiters st n = [] \<Longrightarrow>
   backlog (submits n ms st) n = backlog st n @ ms \<and> waiters (submits n ms st) n = []"
  by (induction ms arbitrary: st) (simp_all add: addMessage_enqueue)

lemma receives_backlog:
  "length ts \<le> length (backlog st n) \<Longrightarrow>
   fst (receives n ts st) = map Immediate (take (length ts) (backlog st n)) \<and>
   backlog (snd (receives n ts st)) n = drop (length ts) (backlog st n) \<and>
   waiters (snd (receives n ts st)) n = waiters st n"
proof (induction ts arbitrary: st)
  case Nil
  then show ?case by simp
next
  case (Cons t ts)
  then obtain m rest where b: "backlog st n = m # rest"
    by (cases "backlog st n") auto
  let ?st1 = "st\<lparr>queues := (queues st)(n \<mapsto> (queue_of st n)\<lparr>messages := rest\<rparr>)\<rparr>"
  have g: "getMessage n t st = (Immediate m, ?st1)"
    using b by (rule getMessage_immediate)
  have "length ts \<le> length (backlog ?st1 n)" using Cons.prems b by simp
  from Cons.IH [OF this] g b show ?case
    by (simp add: split_beta)
qed

text \<open>
  Claim C2. On a queue with no waiters, submitting \<open>ms\<close> in order appends them to the
  tail of the backlog, and any number of receives that the backlog can serve return
  at once, the oldest message first: the replies are the first messages of the old
  backlog followed by \<open>ms\<close>, in that order, and the backlog loses exactly those.
\<close>

theorem fifo_order:
  assumes "waiters st n = []" and "length ts \<le> length (backlog st n @ ms)"
  shows "backlog (submits n ms st) n = backlog st n @ ms \<and>
         fst (receives n ts (submits n ms st)) =
           map Immediate (take (length ts) (backlog st n @ ms)) \<and>
         backlog (snd (receives n ts (submits n ms st))) n =
           drop (length ts) (backlog st n @ ms)"
proof -
  from submits_backlog [OF assms(1), of ms]
  have b: "backlog (submits n ms st) n = backlog st n @ ms" by simp
  with assms(2) have "length ts \<le> length (backlog (submits n ms st) n)" by simp
  from receives_backlog [OF this] b show ?thesis by simp
qed

lemmas exec_defs = addMessage_def getMessage_def getQueue_def set_queue_def setTimeout_def
  clearTimeout_def resolve_promise_def init_def empty_queue_def queue_of_def TIMEOUT_MAX_def
  timeout_callback_def fire_def splice1_def resolutions_def promise_value_def

theorem fifo_order_witness:
  "waiters init ''orders'' = [] \<and>
   fst (receives ''orders'' [Num 0, Num 0, Num 0]
          (submits ''orders'' [order ''1'' ''Order #1'', order ''2'' ''Order #2'',
             order ''3'' ''Order #3''] init)) =
     [Immediate (order ''1'' ''Order #1''), Immediate (order ''2'' ''Order #2''),
      Immediate (order ''3'' ''Order #3'')]"
proof -
  have w: "waiters init ''orders'' = []" and b: "backlog init ''orders'' = []"
    by (simp_all add: init_def queue_of_def)
  have l: "length [Num 0, Num 0, Num 0] \<le> length (backlog init ''orders'' @
      [order ''1'' ''Order #1'', order ''2'' ''Order #2'', order ''3'' ''Order #3''])"
    by (simp add: b)
  from fifo_order [OF w l] w b show ?thesis by simp
qed

section \<open>The steady state and the isolation of queues\<close>

lemma queue_of_invoke [simp]: "queue_of (invoke k v st) = queue_of st"
  by (cases k) (simp_all add: resolve_promise_def)

text \<open>
  Claim C4. After any sequence of completed operations (submits, receives that return
  at once or register a waiter, timer expiries, passing of time) from the empty
  registry, no queue has both a non-empty backlog and a non-empty waiter list. In any
  state, a submit to a queue with a waiter leaves the backlog as it is, and a receive
  on a queue with a backlog leaves the waiter list as it is.
\<close>

theorem never_both_backlog_and_waiters:
  "(backlog (run es init) n = [] \<or> waiters (run es init) n = []) \<and>
   (waiters st n \<noteq> [] \<longrightarrow> backlog (addMessage n m st) n = backlog st n) \<and>
   (backlog st n \<noteq> [] \<longrightarrow> waiters (snd (getMessage n t st)) n = waiters st n)"
proof (intro conjI impI)
  show "backlog (run es init) n = [] \<or> waiters (run es init) n = []"
    using steady_queue_of [OF steady_run [OF steady_init]] .
next
  assume "waiters st n \<noteq> []"
  then obtain c rest where "waiters st n = c # rest" by (cases "waiters st n") auto
  then show "backlog (addMessage n m st) n = backlog st n"
    by (simp add: addMessage_handoff)
next
  assume "backlog st n \<noteq> []"
  then obtain x rest where "backlog st n = x # rest" by (cases "backlog st n") auto
  then show "waiters (snd (getMessage n t st)) n = waiters st n"
    by (simp add: getMessage_immediate)
qed

lemma two_waiting_eval:
  "two_waiting =
   \<lparr>queues = [''orders'' \<mapsto> \<lparr>messages = [], waitingConsumers =
        [\<lparr>resolve = OnMessage 0, reject = OnReject 0, timeoutId = 0\<rparr>,
         \<lparr>resolve = OnMessage (Suc 0), reject = OnReject (Suc 0), timeoutId = Suc 0\<rparr>]\<rparr>],
     timers = [0 \<mapsto> \<lparr>due = 5000, owner = ''orders''\<rparr>,
               Suc 0 \<mapsto> \<lparr>due = 100, owner = ''orders''\<rparr>],
     trace = [], next_id = Suc (Suc 0), now = 0\<rparr>"
  by (simp add: two_waiting_def exec_defs)

lemma one_queued_eval:
  "one_queued =
   \<lparr>queues = [''orders'' \<mapsto> \<lparr>messages = [order ''1'' ''Order #1''], waitingConsumers = []\<rparr>],
     timers = Map.empty, trace = [], next_id = 0, now = 0\<rparr>"
  by (simp add: one_queued_def exec_defs)

theorem never_both_backlog_and_waiters_witness:
  "(backlog two_waiting ''orders'' = [] \<or> waiters two_waiting ''orders'' = []) \<and>
   waiters two_waiting ''orders'' \<noteq> [] \<and>
   backlog (addMessage ''orders'' (order ''1'' ''Order #1'') two_waiting) ''orders'' = [] \<and>
   backlog one_queued ''orders'' \<noteq> [] \<and>
   waiters (snd (getMessage ''orders'' (Num 0) one_queued)) ''orders'' = []"
proof -
  have w: "waiters two_waiting ''orders'' \<noteq> []" "backlog two_waiting ''orders'' = []"
    by (simp_all add: two_waiting_eval queue_of_def)
  have b: "backlog one_queued ''orders'' \<noteq> []" "waiters one_queued ''orders'' = []"
    by (simp_all add: one_queued_eval queue_of_def)
  from never_both_backlog_and_waiters
    [of "[Receive ''orders'' (Num 5000), Receive ''orders'' (Num 100)]" "''orders''" two_waiting
      "order ''1'' ''Order #1''", folded two_waiting_def]
  have 1: "backlog (addMessage ''orders'' (order ''1'' ''Order #1'') two_waiting) ''orders'' = []"
    using w by simp
  from never_both_backlog_and_waiters [of "[]" "''orders''" one_queued _ "Num 0"]
  have 2: "waiters (snd (getMessage ''orders'' (Num 0) one_queued)) ''orders'' = []"
    using b by simp
  from 1 2 w b show ?thesis by simp
qed

subsection \<open>Frame lemmas\<close>

lemma addMessage_frame: "b \<noteq> a \<Longrightarrow> queues (addMessage a m st) b = queues st b"
  by (auto simp: addMessage_def getQueue_def set_queue_def clearTimeout_def
      split: option.splits list.splits)

lemma getMessage_frame: "b \<noteq> a \<Longrightarrow> queues (snd (getMessage a t st)) b = queues st b"
  by (auto simp: getMessage_def getQueue_def set_queue_def setTimeout_def
      split: option.splits list.splits)

lemma timeout_callback_frame: "b \<noteq> a \<Longrightarrow> queues (timeout_callback a tid st) b = queues st b"
  by (auto simp: timeout_callback_def resolve_promise_def set_queue_def split: option.splits)

lemma fire_frame:
  "timers st tid = Some tm \<Longrightarrow> b \<noteq> owner tm \<Longrightarrow> queues (fire tid st) b = queues st b"
  by (simp add: fire_def timeout_callback_frame clearTimeout_def)

lemma getMessage_reply:
  "fst (getMessage n t st) = Immediate x \<Longrightarrow> backlog st n \<noteq> [] \<and> x = hd (backlog st n)"
  by (cases "backlog st n") (simp_all add: getMessage_wait getMessage_immediate)

lemma pending_waiter: "wf st \<Longrightarrow> c \<in> set (waiters st n) \<Longrightarrow> promise_value (timeoutId c) st = None"
  by (simp add: promise_value_def wf_waiterD(5))

lemma addMessage_resolutions_other:
  assumes "wf st" "c \<in> set (waiters st b)" "a \<noteq> b"
  shows "resolutions (timeoutId c) (addMessage a m st) = resolutions (timeoutId c) st"
proof (cases "waiters st a")
  case Nil
  then show ?thesis by (simp add: addMessage_enqueue)
next
  case (Cons h rest)
  then have h: "h \<in> set (waiters st a)" by simp
  from wf_waiters_owner [OF assms(1) h assms(2)] assms(3)
  have "timeoutId h \<noteq> timeoutId c" by auto
  then show ?thesis
    by (simp add: addMessage_remove_waiter [OF assms(1) Cons] remove_waiter_def resolutions_def)
qed

text \<open>
  Claim C7. For distinct queue names \<open>a\<close> and \<open>b\<close>, in any state reached from the
  empty registry: a submit to \<open>a\<close> leaves the registry entry of \<open>b\<close> unchanged and
  resolves no waiter of \<open>b\<close>; a receive on \<open>b\<close> leaves the entry of \<open>a\<close> unchanged and
  a message it returns is the head of the backlog of \<open>b\<close>; the expiry of a waiter of
  \<open>a\<close> leaves the entry of \<open>b\<close> unchanged.
\<close>

theorem queues_are_isolated:
  assumes "a \<noteq> b" and "st = run es init"
  shows "queues (addMessage a m st) b = queues st b \<and>
         (\<forall>c\<in>set (waiters st b). promise_value (timeoutId c) (addMessage a m st) = None) \<and>
         queues (snd (getMessage b t st)) a = queues st a \<and>
         (\<forall>x. fst (getMessage b t st) = Immediate x \<longrightarrow>
              backlog st b \<noteq> [] \<and> x = hd (backlog st b)) \<and>
         (\<forall>tm. timers st tid = Some tm \<and> owner tm = a \<longrightarrow>
              queues (fire tid st) b = queues st b)"
proof -
  from assms(2) have wf: "wf st" by (simp add: wf_run wf_init)
  have 1: "queues (addMessage a m st) b = queues st b"
    using assms(1) by (simp add: addMessage_frame)
  have 2: "\<forall>c\<in>set (waiters st b). promise_value (timeoutId c) (addMessage a m st) = None"
  proof
    fix c assume c: "c \<in> set (waiters st b)"
    from addMessage_resolutions_other [OF wf c assms(1)] wf_waiterD(5) [OF wf c]
    show "promise_value (timeoutId c) (addMessage a m st) = None"
      by (simp add: promise_value_def)
  qed
  have 3: "queues (snd (getMessage b t st)) a = queues st a"
    using assms(1) by (simp add: getMessage_frame)
  have 4: "\<forall>x. fst (getMessage b t st) = Immediate x \<longrightarrow>
      backlog st b \<noteq> [] \<and> x = hd (backlog st b)"
    using getMessage_reply by blast
  have 5: "\<forall>tm. timers st tid = Some tm \<and> owner tm = a \<longrightarrow>
      queues (fire tid st) b = queues st b"
    using assms(1) by (auto simp: fire_frame)
  from 1 2 3 4 5 show ?thesis by blast
qed

section \<open>Waiters stand in the order of their registration\<close>

lemma ordered_init: "ordered init"
  by (simp add: ordered_def init_def queue_of_def)

lemma ordered_remove_waiter: "ordered st \<Longrightarrow> ordered (remove_waiter n tid r st)"
  by (simp add: ordered_def remove_waiter_def sorted_wrt_filter)

lemma ordered_step:
  assumes "wf st" "ordered st"
  shows "ordered (step e st)"
proof (cases e)
  case (Submit n m)
  show ?thesis
  proof (cases "waiters st n")
    case Nil
    with assms(2) Submit show ?thesis by (simp add: addMessage_enqueue ordered_def)
  next
    case (Cons c rest)
    from addMessage_remove_waiter [OF assms(1) Cons, of m] Submit assms(2) show ?thesis
      by (simp add: ordered_remove_waiter)
  qed
next
  case (Receive n t)
  show ?thesis
  proof (cases "backlog st n")
    case (Cons m rest)
    with assms(2) Receive show ?thesis by (simp add: getMessage_immediate ordered_def)
  next
    case Nil
    have "\<forall>c\<in>set (waiters st n). timeoutId c < next_id st"
      using wf_waiterD(4) [OF assms(1)] by blast
    with assms(2) Nil Receive show ?thesis
      by (simp add: getMessage_wait ordered_def sorted_wrt_append)
  qed
next
  case (Fire tid)
  show ?thesis
  proof (cases "\<exists>t. timers st tid = Some t \<and> due t \<le> now st")
    case False
    then have "fire tid st = st" by (auto simp: fire_def split: option.splits)
    with assms(2) Fire show ?thesis by simp
  next
    case True
    then obtain t where t: "timers st tid = Some t" "due t \<le> now st" by blast
    from fire_remove_waiter [OF assms(1) t] Fire assms(2) show ?thesis
      by (simp add: ordered_remove_waiter)
  qed
next
  case (Tick d)
  with assms(2) show ?thesis by (simp add: ordered_def)
qed

lemma ordered_run: "wf st \<Longrightarrow> ordered st \<Longrightarrow> ordered (run es st)"
  by (induction es arbitrary: st) (simp_all add: ordered_step wf_step)

lemma head_is_oldest:
  assumes "st = run es init" "waiters st n = c # rest" "w \<in> set rest"
  shows "timeoutId c < timeoutId w"
proof -
  from assms(1) have "ordered st" by (simp add: ordered_run wf_init ordered_init)
  then have "sorted_wrt (\<lambda>a b. timeoutId a < timeoutId b) (c # rest)"
    unfolding ordered_def using assms(2) by metis
  with assms(3) show ?thesis by simp
qed

lemma isolated_waiting_eval:
  "isolated_waiting =
   \<lparr>queues = [''b'' \<mapsto> \<lparr>messages = [], waitingConsumers =
                  [\<lparr>resolve = OnMessage 0, reject = OnReject 0, timeoutId = 0\<rparr>]\<rparr>,
               ''a'' \<mapsto> \<lparr>messages = [], waitingConsumers =
                  [\<lparr>resolve = OnMessage (Suc 0), reject = OnReject (Suc 0), timeoutId = Suc 0\<rparr>]\<rparr>],
     timers = [0 \<mapsto> \<lparr>due = 5000, owner = ''b''\<rparr>, Suc 0 \<mapsto> \<lparr>due = 100, owner = ''a''\<rparr>],
     trace = [], next_id = Suc (Suc 0), now = 100\<rparr>"
  by (simp add: isolated_waiting_def exec_defs)

lemma isolated_queued_eval:
  "isolated_queued =
   \<lparr>queues = [''b'' \<mapsto> \<lparr>messages = [order ''1'' ''for b''], waitingConsumers = []\<rparr>,
               ''a'' \<mapsto> \<lparr>messages = [order ''2'' ''for a''], waitingConsumers = []\<rparr>],
     timers = Map.empty, trace = [], next_id = 0, now = 0\<rparr>"
  by (simp add: isolated_queued_def exec_defs)

theorem queues_are_isolated_witness:
  "''a'' \<noteq> ''b'' \<and>
   map timeoutId (waiters isolated_waiting ''b'') = [0] \<and>
   queues (addMessage ''a'' (order ''3'' ''late'') isolated_waiting) ''b'' =
     queues isolated_waiting ''b'' \<and>
   promise_value 0 (addMessage ''a'' (order ''3'' ''late'') isolated_waiting) = None \<and>
   fst (getMessage ''b'' (Num 0) isolated_queued) = Immediate (order ''1'' ''for b'') \<and>
   queues (snd (getMessage ''b'' (Num 0) isolated_queued)) ''a'' = queues isolated_queued ''a'' \<and>
   timers isolated_waiting (Suc 0) = Some \<lparr>due = 100, owner = ''a''\<rparr> \<and>
   queues (fire (Suc 0) isolated_waiting) ''b'' = queues isolated_waiting ''b''"
proof -
  have ne: "''a'' \<noteq> ''b''" by simp
  have w: "waiters isolated_waiting ''b'' =
      [\<lparr>resolve = OnMessage 0, reject = OnReject 0, timeoutId = 0\<rparr>]"
    and t: "timers isolated_waiting (Suc 0) = Some \<lparr>due = 100, owner = ''a''\<rparr>"
    by (simp_all add: isolated_waiting_eval queue_of_def)
  have g: "fst (getMessage ''b'' (Num 0) isolated_queued) = Immediate (order ''1'' ''for b'')"
    by (simp add: isolated_queued_eval exec_defs)
  from queues_are_isolated [OF ne isolated_waiting_def, of "order ''3'' ''late''" _ "Suc 0"] w t
  have 1: "queues (addMessage ''a'' (order ''3'' ''late'') isolated_waiting) ''b'' =
      queues isolated_waiting ''b''"
    "promise_value 0 (addMessage ''a'' (order ''3'' ''late'') isolated_waiting) = None"
    "queues (fire (Suc 0) isolated_waiting) ''b'' = queues isolated_waiting ''b''"
    by simp_all
  from queues_are_isolated [OF ne isolated_queued_def, of _ "Num 0"]
  have 2: "queues (snd (getMessage ''b'' (Num 0) isolated_queued)) ''a'' = queues isolated_queued ''a''"
    by simp
  from ne w t g 1 2 show ?thesis by simp
qed

text \<open>
  Claim C3. In any state reached from the empty registry in which queue \<open>n\<close> has the
  waiters \<open>c # rest\<close>, the head \<open>c\<close> is the waiter that registered earliest: timer
  numbers are given out in the order of registration, the numbers along the list
  increase strictly, so that of \<open>c\<close> is below that of every waiter of \<open>rest\<close>, and a
  receive that registers now gets a number above all of them and is put at the tail.
  A submit of \<open>m\<close> to \<open>n\<close> leaves the waiters \<open>rest\<close> (in their order), disarms the
  timer of \<open>c\<close>, calls the stored \<open>resolve\<close> of \<open>c\<close> with \<open>m\<close> so that the promise of
  \<open>c\<close> holds \<open>m\<close>, and leaves the backlog as it was; every other waiter's promise stays
  pending and its timer stays armed.
\<close>

theorem handoff_to_oldest_waiter:
  assumes "st = run es init" and "waiters st n = c # rest"
  shows "(\<forall>w\<in>set rest. timeoutId c < timeoutId w) \<and>
         sorted_wrt (\<lambda>a b. timeoutId a < timeoutId b) (c # rest) \<and>
         (\<forall>w\<in>set (c # rest). timeoutId w < next_id st) \<and>
         fst (getMessage n t st) = Pending (next_id st) \<and>
         waiters (snd (getMessage n t st)) n =
           (c # rest) @ [\<lparr>resolve = OnMessage (next_id st), reject = OnReject (next_id st),
                           timeoutId = next_id st\<rparr>] \<and>
         waiters (addMessage n m st) n = rest \<and>
         timers (addMessage n m st) (timeoutId c) = None \<and>
         trace (addMessage n m st) =
           trace st @ [\<lparr>promise = timeoutId c, origin = FromResolve, outcome = Some m\<rparr>] \<and>
         promise_value (timeoutId c) (addMessage n m st) = Some (Some m) \<and>
         backlog (addMessage n m st) n = backlog st n \<and>
         (\<forall>w\<in>set rest. promise_value (timeoutId w) (addMessage n m st) = None \<and>
            timers (addMessage n m st) (timeoutId w) = timers st (timeoutId w) \<and>
            timers st (timeoutId w) \<noteq> None)"
proof -
  from assms(1) have wf: "wf st" by (simp add: wf_run wf_init)
  let ?r = "\<lparr>promise = timeoutId c, origin = FromResolve, outcome = Some m\<rparr>"
  have c: "c \<in> set (waiters st n)" using assms(2) by simp
  from wf_distinct [OF wf, of n] assms(2)
  have notin: "timeoutId c \<notin> timeoutId ` set rest" by simp
  then have keep: "filter (\<lambda>x. timeoutId x \<noteq> timeoutId c) rest = rest"
    by (metis (mono_tags, lifting) filter_id_conv image_eqI)
  have eq: "addMessage n m st = remove_waiter n (timeoutId c) ?r st"
    using addMessage_remove_waiter [OF wf assms(2)] .
  have 1: "waiters (addMessage n m st) n = rest"
    using assms(2) keep by (simp add: eq remove_waiter_def)
  have 2: "timers (addMessage n m st) (timeoutId c) = None"
    by (simp add: eq remove_waiter_def)
  have 3: "trace (addMessage n m st) = trace st @ [?r]"
    by (simp add: eq remove_waiter_def)
  have 4: "promise_value (timeoutId c) (addMessage n m st) = Some (Some m)"
    using wf_waiterD(5) [OF wf c] by (simp add: promise_value_def resolutions_def 3)
  have 5: "backlog (addMessage n m st) n = backlog st n"
    by (simp add: eq remove_waiter_def)
  have 6: "\<forall>w\<in>set rest. promise_value (timeoutId w) (addMessage n m st) = None \<and>
      timers (addMessage n m st) (timeoutId w) = timers st (timeoutId w) \<and>
      timers st (timeoutId w) \<noteq> None"
  proof
    fix w assume w: "w \<in> set rest"
    then have w': "w \<in> set (waiters st n)" using assms(2) by simp
    from w notin have ne: "timeoutId w \<noteq> timeoutId c" by (metis image_eqI)
    from wf_waiterD(5) [OF wf w'] ne
    have "promise_value (timeoutId w) (addMessage n m st) = None"
      by (simp add: promise_value_def resolutions_def 3)
    moreover have "timers (addMessage n m st) (timeoutId w) = timers st (timeoutId w)"
      using ne by (simp add: eq remove_waiter_def)
    moreover from wf_waiterD(3) [OF wf w'] have "timers st (timeoutId w) \<noteq> None" by auto
    ultimately show "promise_value (timeoutId w) (addMessage n m st) = None \<and>
      timers (addMessage n m st) (timeoutId w) = timers st (timeoutId w) \<and>
      timers st (timeoutId w) \<noteq> None" by simp
  qed
  have 7: "\<forall>w\<in>set rest. timeoutId c < timeoutId w"
    using head_is_oldest [OF assms] by blast
  from assms(1) have "ordered st" by (simp add: ordered_run wf_init ordered_init)
  then have 8: "sorted_wrt (\<lambda>a b. timeoutId a < timeoutId b) (c # rest)"
    unfolding ordered_def using assms(2) by metis
  have 9: "\<forall>w\<in>set (c # rest). timeoutId w < next_id st"
    using wf_waiterD(4) [OF wf, of _ n] assms(2) by simp
  from assms(1) have "steady st" by (simp add: steady_run steady_init)
  with steady_queue_of [of st n] assms(2) have empty: "backlog st n = []" by auto
  have 10: "fst (getMessage n t st) = Pending (next_id st)"
    "waiters (snd (getMessage n t st)) n =
       (c # rest) @ [\<lparr>resolve = OnMessage (next_id st), reject = OnReject (next_id st),
                       timeoutId = next_id st\<rparr>]"
    using assms(2) by (simp_all add: getMessage_wait [OF empty])
  from 1 2 3 4 5 6 7 8 9 10 show ?thesis by blast
qed

theorem handoff_to_oldest_waiter_witness:
  "waiters two_waiting ''orders'' =
     \<lparr>resolve = OnMessage 0, reject = OnReject 0, timeoutId = 0\<rparr> #
     [\<lparr>resolve = OnMessage (Suc 0), reject = OnReject (Suc 0), timeoutId = Suc 0\<rparr>] \<and>
   timeoutId \<lparr>resolve = OnMessage 0, reject = OnReject 0, timeoutId = 0\<rparr> <
     timeoutId \<lparr>resolve = OnMessage (Suc 0), reject = OnReject (Suc 0), timeoutId = Suc 0\<rparr> \<and>
   fst (getMessage ''orders'' (Num 0) two_waiting) = Pending 2 \<and>
   map timeoutId (waiters (snd (getMessage ''orders'' (Num 0) two_waiting)) ''orders'') =
     [0, 1, 2] \<and>
   waiters (addMessage ''orders'' (order ''7'' ''hello'') two_waiting) ''orders'' =
     [\<lparr>resolve = OnMessage (Suc 0), reject = OnReject (Suc 0), timeoutId = Suc 0\<rparr>] \<and>
   timers (addMessage ''orders'' (order ''7'' ''hello'') two_waiting) 0 = None \<and>
   promise_value 0 (addMessage ''orders'' (order ''7'' ''hello'') two_waiting) =
     Some (Some (order ''7'' ''hello'')) \<and>
   backlog (addMessage ''orders'' (order ''7'' ''hello'') two_waiting) ''orders'' = [] \<and>
   promise_value (Suc 0) (addMessage ''orders'' (order ''7'' ''hello'') two_waiting) = None \<and>
   timers (addMessage ''orders'' (order ''7'' ''hello'') two_waiting) (Suc 0) =
     Some \<lparr>due = 100, owner = ''orders''\<rparr>"
proof -
  have w: "waiters two_waiting ''orders'' =
     \<lparr>resolve = OnMessage 0, reject = OnReject 0, timeoutId = 0\<rparr> #
     [\<lparr>resolve = OnMessage (Suc 0), reject = OnReject (Suc 0), timeoutId = Suc 0\<rparr>]"
    and b: "backlog two_waiting ''orders'' = []"
    and t: "timers two_waiting (Suc 0) = Some \<lparr>due = 100, owner = ''orders''\<rparr>"
    by (simp_all add: two_waiting_eval queue_of_def)
  have n: "next_id two_waiting = 2" by (simp add: two_waiting_eval)
  from handoff_to_oldest_waiter [OF two_waiting_def w, of "Num 0" "order ''7'' ''hello''"] w b t n
  show ?thesis by simp
qed

section \<open>Resolutions\<close>

subsection \<open>What a step adds to the trace\<close>

lemma run_append: "run (xs @ ys) st = run ys (run xs st)"
  by (induction xs arbitrary: st) simp_all

lemma getMessage_trace [simp]: "trace (snd (getMessage n t st)) = trace st"
  by (cases "backlog st n") (simp_all add: getMessage_wait getMessage_immediate)

lemma step_trace:
  assumes "wf st"
  shows "trace (step e st) = trace st \<or>
    (\<exists>n r. step e st = remove_waiter n (promise r) r st \<and>
       promise r \<in> timeoutId ` set (waiters st n) \<and>
       ((\<exists>m. e = Submit n m \<and> origin r = FromResolve \<and> outcome r = Some m \<and>
             promise r = timeoutId (hd (waiters st n))) \<or>
        (e = Fire (promise r) \<and> origin r = FromTimer \<and> outcome r = None \<and>
           (\<exists>t. timers st (promise r) = Some t \<and> owner t = n \<and> due t \<le> now st))))"
proof (cases e)
  case (Submit n m)
  show ?thesis
  proof (cases "waiters st n")
    case Nil
    with Submit show ?thesis by (simp add: addMessage_enqueue)
  next
    case (Cons c rest)
    let ?r = "\<lparr>promise = timeoutId c, origin = FromResolve, outcome = Some m\<rparr>"
    have "step e st = remove_waiter n (promise ?r) ?r st"
      using addMessage_remove_waiter [OF assms Cons] Submit by simp
    moreover have "promise ?r \<in> timeoutId ` set (waiters st n)" using Cons by simp
    moreover have "e = Submit n m \<and> origin ?r = FromResolve \<and> outcome ?r = Some m \<and>
        promise ?r = timeoutId (hd (waiters st n))"
      using Submit Cons by simp
    ultimately show ?thesis by blast
  qed
next
  case (Receive n t)
  then show ?thesis by simp
next
  case (Fire tid)
  show ?thesis
  proof (cases "timers st tid")
    case None
    with Fire show ?thesis by (simp add: fire_idle)
  next
    case (Some t)
    show ?thesis
    proof (cases "due t \<le> now st")
      case False
      with Some Fire show ?thesis by (simp add: fire_idle)
    next
      case True
      let ?r = "\<lparr>promise = tid, origin = FromTimer, outcome = None\<rparr>"
      have "step e st = remove_waiter (owner t) (promise ?r) ?r st"
        using fire_remove_waiter [OF assms Some True] Fire by simp
      moreover from assms Some have "promise ?r \<in> timeoutId ` set (waiters st (owner t))"
        by (simp add: wf_def wf_timers_def)
      moreover have "e = Fire (promise ?r) \<and> origin ?r = FromTimer \<and> outcome ?r = None \<and>
          (\<exists>t'. timers st (promise ?r) = Some t' \<and> owner t' = owner t \<and> due t' \<le> now st)"
        using Fire Some True by simp
      ultimately show ?thesis by blast
    qed
  qed
next
  case (Tick d)
  then show ?thesis by simp
qed

lemma remove_waiter_trace [simp]: "trace (remove_waiter n tid r st) = trace st @ [r]"
  by (simp add: remove_waiter_def)

lemma step_trace_shape:
  assumes "wf st" "\<forall>r\<in>set (trace st). delivered r \<or> timed_out r"
  shows "\<forall>r\<in>set (trace (step e st)). delivered r \<or> timed_out r"
  using step_trace [OF assms(1), of e] assms(2)
  by (auto simp: delivered_def timed_out_def)

lemma run_trace_shape:
  "wf st \<Longrightarrow> \<forall>r\<in>set (trace st). delivered r \<or> timed_out r \<Longrightarrow>
   \<forall>r\<in>set (trace (run es st)). delivered r \<or> timed_out r"
proof (induction es arbitrary: st)
  case Nil
  then show ?case by simp
next
  case (Cons e es)
  from Cons.prems have "wf (step e st)" by (simp add: wf_step)
  moreover from Cons.prems have "\<forall>r\<in>set (trace (step e st)). delivered r \<or> timed_out r"
    by (rule step_trace_shape)
  ultimately show ?case using Cons.IH by simp
qed

lemma reachable_trace_shape: "r \<in> set (trace (run es init)) \<Longrightarrow> delivered r \<or> timed_out r"
  using run_trace_shape [OF wf_init, of es] by (simp add: init_def)

text \<open>
  Claim C10. In every state reached from the empty registry, no recorded call of a
  promise's \<open>resolve\<close> was made through a stored \<open>reject\<close> field: a message is
  delivered through the \<open>resolve\<close> field, and \<open>null\<close> is passed by the timer callback
  itself. Every waiting consumer does store the two closures of its own promise.
\<close>

theorem reject_is_never_invoked:
  "(\<forall>r\<in>set (trace (run es init)).
      origin r \<noteq> FromReject \<and>
      (origin r = FromResolve \<and> outcome r \<noteq> None \<or> origin r = FromTimer \<and> outcome r = None)) \<and>
   (\<forall>c\<in>set (waiters (run es init) n).
      resolve c = OnMessage (timeoutId c) \<and> reject c = OnReject (timeoutId c))"
proof (intro conjI ballI)
  fix r assume "r \<in> set (trace (run es init))"
  from reachable_trace_shape [OF this]
  show "origin r = FromResolve \<and> outcome r \<noteq> None \<or> origin r = FromTimer \<and> outcome r = None"
    by (simp add: delivered_def timed_out_def)
  then show "origin r \<noteq> FromReject" by auto
next
  fix c assume c: "c \<in> set (waiters (run es init) n)"
  have "wf (run es init)" by (simp add: wf_run wf_init)
  from wf_waiterD(1,2) [OF this c]
  show "resolve c = OnMessage (timeoutId c)" "reject c = OnReject (timeoutId c)" .
qed

lemma one_of_each_eval:
  "one_of_each =
   \<lparr>queues = [''orders'' \<mapsto> \<lparr>messages = [], waitingConsumers =
        [\<lparr>resolve = OnMessage 2, reject = OnReject 2, timeoutId = 2\<rparr>]\<rparr>],
     timers = [2 \<mapsto> \<lparr>due = 1, owner = ''orders''\<rparr>],
     trace = [\<lparr>promise = 0, origin = FromResolve, outcome = Some (order ''7'' ''hello'')\<rparr>,
              \<lparr>promise = 1, origin = FromTimer, outcome = None\<rparr>],
     next_id = 3, now = 100\<rparr>"
  by (simp add: one_of_each_def exec_defs fun_eq_iff eval_nat_numeral)

theorem reject_is_never_invoked_witness:
  "trace one_of_each =
     [\<lparr>promise = 0, origin = FromResolve, outcome = Some (order ''7'' ''hello'')\<rparr>,
      \<lparr>promise = 1, origin = FromTimer, outcome = None\<rparr>] \<and>
   origin (trace one_of_each ! 0) \<noteq> FromReject \<and>
   origin (trace one_of_each ! 1) \<noteq> FromReject \<and>
   map reject (waiters one_of_each ''orders'') = [OnReject 2]"
  using reject_is_never_invoked [of "[Receive ''orders'' (Num 5000), Receive ''orders'' (Num 100),
     Receive ''orders'' (Num 0), Submit ''orders'' (order ''7'' ''hello''), Tick 100, Fire 1]"
     "''orders''", folded one_of_each_def]
  by (simp add: one_of_each_eval queue_of_def)

subsection \<open>Letting every deadline pass\<close>

lemma foldr_max_ge: "b \<le> foldr max xs (b::nat)" "x \<in> set xs \<Longrightarrow> x \<le> foldr max xs b"
  by (induction xs) (auto simp: max_def)

lemma latest_due_ge:
  "now st \<le> latest_due st"
  "tid < next_id st \<Longrightarrow> timers st tid = Some t \<Longrightarrow> due t \<le> latest_due st"
proof -
  show "now st \<le> latest_due st" by (simp add: latest_due_def foldr_max_ge(1))
  assume a: "tid < next_id st" "timers st tid = Some t"
  let ?f = "\<lambda>tid. case timers st tid of None \<Rightarrow> 0 | Some t \<Rightarrow> due t"
  from a have "due t = ?f tid" by simp
  moreover from a have "?f tid \<in> set (map ?f [0..<next_id st])" by (intro imageI image_eqI [where x = tid] | simp)+
  ultimately show "due t \<le> latest_due st"
    unfolding latest_due_def using foldr_max_ge(2) by metis
qed

lemma timeout_callback_fields [simp]:
  "timers (timeout_callback n tid st) = timers st"
  "next_id (timeout_callback n tid st) = next_id st"
  "now (timeout_callback n tid st) = now st"
  by (simp_all add: timeout_callback_def resolve_promise_def set_queue_def split: option.splits)

lemma fire_fields:
  "timers (fire tid st) tid' =
     (if tid' = tid \<and> (\<exists>t. timers st tid = Some t \<and> due t \<le> now st) then None
      else timers st tid')"
  "next_id (fire tid st) = next_id st"
  "now (fire tid st) = now st"
  by (auto simp: fire_def clearTimeout_def split: option.splits)

lemma all_due_fire: "all_due st \<Longrightarrow> all_due (fire tid st)"
  by (auto simp: all_due_def fire_fields split: if_splits)

lemma fire_disarms: "all_due st \<Longrightarrow> timers (fire tid st) tid = None"
  by (cases "timers st tid") (auto simp: all_due_def fire_fields)

lemma fire_all_keeps_none: "timers st tid = None \<Longrightarrow> timers (run (map Fire ids) st) tid = None"
  by (induction ids arbitrary: st) (simp_all add: fire_fields)

lemma fire_all_disarms:
  "all_due st \<Longrightarrow> tid \<in> set ids \<Longrightarrow> timers (run (map Fire ids) st) tid = None"
proof (induction ids arbitrary: st)
  case Nil
  then show ?case by simp
next
  case (Cons i ids)
  show ?case
  proof (cases "tid = i")
    case True
    with Cons.prems(1) show ?thesis by (simp add: fire_disarms fire_all_keeps_none)
  next
    case False
    with Cons.prems have "tid \<in> set ids" by simp
    with Cons.IH [OF all_due_fire [OF Cons.prems(1)]] show ?thesis by simp
  qed
qed

lemma fire_all_next_id: "next_id (run (map Fire ids) st) = next_id st"
  by (induction ids arbitrary: st) (simp_all add: fire_fields)

lemma expiry_disarms:
  assumes "wf st" "p < next_id st"
  shows "timers (run (expiry_events st) st) p = None"
    and "next_id (run (expiry_events st) st) = next_id st"
proof -
  let ?st = "st\<lparr>now := now st + (latest_due st - now st)\<rparr>"
  have now: "now ?st = latest_due st" using latest_due_ge(1) [of st] by simp
  have "all_due ?st"
    unfolding all_due_def
  proof (intro allI impI)
    fix tid t assume "timers ?st tid = Some t"
    then have t: "timers st tid = Some t" by simp
    with assms(1) have "tid < next_id st" by (simp add: wf_def wf_timers_def)
    from latest_due_ge(2) [OF this t] now show "due t \<le> now ?st" by simp
  qed
  moreover from assms(2) have "p \<in> set [0..<next_id st]" by simp
  ultimately have "timers (run (map Fire [0..<next_id st]) ?st) p = None"
    by (rule fire_all_disarms)
  then show "timers (run (expiry_events st) st) p = None"
    by (simp add: expiry_events_def)
  show "next_id (run (expiry_events st) st) = next_id st"
    by (simp add: expiry_events_def fire_all_next_id)
qed

lemma step_next_id: "next_id st \<le> next_id (step e st)"
proof (cases e)
  case (Submit n m)
  then show ?thesis
    by (cases "waiters st n"; cases "resolve (hd (waiters st n))")
      (simp_all add: addMessage_enqueue addMessage_handoff resolve_promise_def)
next
  case (Receive n t)
  then show ?thesis
    by (cases "backlog st n") (simp_all add: getMessage_wait getMessage_immediate)
qed (simp_all add: fire_fields)

lemma run_next_id: "next_id st \<le> next_id (run es st)"
proof (induction es arbitrary: st)
  case Nil
  show ?case by simp
next
  case (Cons e es)
  from step_next_id [of st e] Cons [of "step e st"] show ?case by simp
qed

lemma getMessage_Pending:
  assumes "getMessage n t st = (Pending p, st')"
  shows "backlog st n = []" "p = next_id st" "next_id st' = Suc p"
    "timers st' p = Some \<lparr>due = now st + timer_delay t, owner = n\<rparr>" "now st' = now st"
    "st' = snd (getMessage n t st)"
  using assms by (cases "backlog st n"; simp add: getMessage_wait getMessage_immediate; fastforce)+

lemma wf_resolutions:
  "wf st \<Longrightarrow> length (resolutions p st) = (if p < next_id st \<and> timers st p = None then 1 else 0)"
  unfolding wf_def wf_trace_def by blast

text \<open>
  Claim C1. Let a receive on an empty backlog, in a state reached from the empty
  registry, create the waiter \<open>p\<close>, and let any events follow, in any order: submits,
  receives, callbacks of timers that are due, passing of time. Then at every moment
  \<open>p\<close> has at most one resolution, each a delivery of a message through its stored
  \<open>resolve\<close> or the timer's \<open>null\<close>; and once the clock has passed every deadline and
  the due timers have run, \<open>p\<close> has exactly one.
\<close>

theorem waiter_resolved_exactly_once:
  assumes "st0 = run es0 init" and "getMessage n t st0 = (Pending p, st1)"
    and "st = run es st1"
  shows "length (resolutions p st) \<le> 1 \<and>
         (\<forall>r\<in>set (resolutions p st). delivered r \<or> timed_out r) \<and>
         (\<exists>r. resolutions p (run (expiry_events st) st) = [r] \<and> (delivered r \<or> timed_out r))"
proof -
  have st1: "st1 = step (Receive n t) st0" using assms(2) by simp
  have reach: "st = run (es0 @ Receive n t # es) init"
    using assms(1,3) st1 by (simp add: run_append)
  then have wf: "wf st" by (simp add: wf_run wf_init)
  from getMessage_Pending(3) [OF assms(2)] run_next_id [of st1 es] assms(3)
  have p: "p < next_id st" by simp
  let ?st = "run (expiry_events st) st"
  have reach': "?st = run ((es0 @ Receive n t # es) @ expiry_events st) init"
    using reach by (simp only: run_append)
  then have wf': "wf ?st" by (simp add: wf_run wf_init)
  have 1: "length (resolutions p st) \<le> 1"
    using wf_resolutions [OF wf, of p] by simp
  have 2: "\<forall>r\<in>set (resolutions p st). delivered r \<or> timed_out r"
    using reachable_trace_shape [of _ "es0 @ Receive n t # es"] reach
    by (simp add: resolutions_def)
  from expiry_disarms [OF wf p] wf_resolutions [OF wf', of p] p
  have "length (resolutions p ?st) = 1" by simp
  then obtain r where r: "resolutions p ?st = [r]"
    by (cases "resolutions p ?st") simp_all
  then have "r \<in> set (resolutions p ?st)" by simp
  then have "r \<in> set (trace ?st)" by (simp add: resolutions_def)
  with reachable_trace_shape reach' have "delivered r \<or> timed_out r" by metis
  with r 1 2 show ?thesis by blast
qed

lemma race_submit_first_eval:
  "race_submit_first =
   \<lparr>queues = [''orders'' \<mapsto> \<lparr>messages = [], waitingConsumers = []\<rparr>],
     timers = Map.empty,
     trace = [\<lparr>promise = 0, origin = FromResolve, outcome = Some (order ''7'' ''hello'')\<rparr>],
     next_id = Suc 0, now = 100\<rparr>"
  by (simp add: race_submit_first_def exec_defs fun_eq_iff)

lemma race_timer_first_eval:
  "race_timer_first =
   \<lparr>queues = [''orders'' \<mapsto> \<lparr>messages = [order ''7'' ''hello''], waitingConsumers = []\<rparr>],
     timers = Map.empty,
     trace = [\<lparr>promise = 0, origin = FromTimer, outcome = None\<rparr>],
     next_id = Suc 0, now = 100\<rparr>"
  by (simp add: race_timer_first_def exec_defs fun_eq_iff)

theorem waiter_resolved_exactly_once_witness:
  "fst (getMessage ''orders'' (Num 100) init) = Pending 0 \<and>
   resolutions 0 race_submit_first =
     [\<lparr>promise = 0, origin = FromResolve, outcome = Some (order ''7'' ''hello'')\<rparr>] \<and>
   resolutions 0 race_timer_first = [\<lparr>promise = 0, origin = FromTimer, outcome = None\<rparr>] \<and>
   length (resolutions 0 race_submit_first) \<le> 1 \<and>
   length (resolutions 0 (run (expiry_events race_submit_first) race_submit_first)) = 1 \<and>
   length (resolutions 0 race_timer_first) \<le> 1 \<and>
   length (resolutions 0 (run (expiry_events race_timer_first) race_timer_first)) = 1"
proof -
  have i: "init = run [] init" by simp
  have g: "getMessage ''orders'' (Num 100) init =
      (Pending 0, snd (getMessage ''orders'' (Num 100) init))"
    by (simp add: exec_defs)
  from waiter_resolved_exactly_once [OF i g race_submit_first_def]
  have a: "length (resolutions 0 race_submit_first) \<le> 1"
    "length (resolutions 0 (run (expiry_events race_submit_first) race_submit_first)) = 1"
    by auto
  from waiter_resolved_exactly_once [OF i g race_timer_first_def]
  have b: "length (resolutions 0 race_timer_first) \<le> 1"
    "length (resolutions 0 (run (expiry_events race_timer_first) race_timer_first)) = 1"
    by auto
  have c: "resolutions 0 race_submit_first =
      [\<lparr>promise = 0, origin = FromResolve, outcome = Some (order ''7'' ''hello'')\<rparr>]"
    "resolutions 0 race_timer_first = [\<lparr>promise = 0, origin = FromTimer, outcome = None\<rparr>]"
    by (simp_all add: race_submit_first_eval race_timer_first_eval resolutions_def)
  have g': "fst (getMessage ''orders'' (Num 100) init) = Pending 0"
    by (simp add: exec_defs)
  from g' a b c show ?thesis by simp
qed

subsection \<open>A waiter between its registration and its resolution\<close>

lemma remove_waiter_fields [simp]:
  "timers (remove_waiter n tid r st) = (timers st)(tid := None)"
  "next_id (remove_waiter n tid r st) = next_id st"
  "now (remove_waiter n tid r st) = now st"
  "waiters (remove_waiter n tid r st) n' =
     (if n' = n then filter (\<lambda>c. timeoutId c \<noteq> tid) (waiters st n) else waiters st n')"
  "backlog (remove_waiter n tid r st) n' = backlog st n'"
  by (simp_all add: remove_waiter_def)

lemma step_timers:
  assumes "wf st" "p < next_id st"
  shows "timers (step e st) p = timers st p \<or>
         (timers (step e st) p = None \<and> (\<exists>n r. step e st = remove_waiter n p r st \<and> promise r = p))"
proof (cases e)
  case (Submit n m)
  show ?thesis
  proof (cases "waiters st n")
    case Nil
    with Submit show ?thesis by (simp add: addMessage_enqueue)
  next
    case (Cons c rest)
    let ?r = "\<lparr>promise = timeoutId c, origin = FromResolve, outcome = Some m\<rparr>"
    have eq: "step e st = remove_waiter n (timeoutId c) ?r st"
      using addMessage_remove_waiter [OF assms(1) Cons, of m] Submit by simp
    show ?thesis
    proof (cases "timeoutId c = p")
      case True
      with eq have "step e st = remove_waiter n p ?r st" "promise ?r = p"
        "timers (step e st) p = None" by simp_all
      then show ?thesis by blast
    next
      case False
      with eq show ?thesis by simp
    qed
  qed
next
  case (Receive n t)
  with assms(2) show ?thesis
    by (cases "backlog st n") (simp_all add: getMessage_wait getMessage_immediate)
next
  case (Fire tid)
  show ?thesis
  proof (cases "\<exists>t. timers st tid = Some t \<and> due t \<le> now st")
    case False
    then have "fire tid st = st" by (auto simp: fire_def split: option.splits)
    with Fire show ?thesis by simp
  next
    case True
    then obtain t where t: "timers st tid = Some t" "due t \<le> now st" by blast
    let ?r = "\<lparr>promise = tid, origin = FromTimer, outcome = None\<rparr>"
    have eq: "step e st = remove_waiter (owner t) tid ?r st"
      using fire_remove_waiter [OF assms(1) t] Fire by simp
    show ?thesis
    proof (cases "tid = p")
      case True
      with eq have "step e st = remove_waiter (owner t) p ?r st" "promise ?r = p"
        "timers (step e st) p = None" by simp_all
      then show ?thesis by blast
    next
      case False
      with eq show ?thesis by simp
    qed
  qed
next
  case (Tick d)
  then show ?thesis by simp
qed

lemma step_now: "now st \<le> now (step e st)"
proof (cases e)
  case (Submit n m)
  then show ?thesis
    by (cases "waiters st n"; cases "resolve (hd (waiters st n))")
      (simp_all add: addMessage_enqueue addMessage_handoff resolve_promise_def)
next
  case (Receive n t)
  then show ?thesis
    by (cases "backlog st n") (simp_all add: getMessage_wait getMessage_immediate)
qed (simp_all add: fire_fields)

lemma run_now: "now st \<le> now (run es st)"
proof (induction es arbitrary: st)
  case Nil
  show ?case by simp
next
  case (Cons e es)
  from step_now [of st e] Cons [of "step e st"] show ?case by simp
qed

lemma step_resolutions:
  assumes "wf st"
  shows "resolutions p (step e st) = resolutions p st \<or>
    (\<exists>r. resolutions p (step e st) = resolutions p st @ [r] \<and> promise r = p \<and>
       timers st p \<noteq> None \<and> timers (step e st) p = None \<and>
       (outcome r = None \<longrightarrow> (\<exists>t. timers st p = Some t \<and> due t \<le> now st)))"
  using step_trace [OF assms, of e]
proof (elim disjE exE conjE)
  assume "trace (step e st) = trace st"
  then show ?thesis by (simp add: resolutions_def)
next
  fix n r m
  assume s: "step e st = remove_waiter n (promise r) r st"
    and w: "promise r \<in> timeoutId ` set (waiters st n)" and o: "outcome r = Some m"
  from w obtain c where c: "c \<in> set (waiters st n)" "timeoutId c = promise r" by auto
  from wf_waiterD(3) [OF assms c(1)] c(2) have "timers st (promise r) \<noteq> None" by auto
  with s o show ?thesis by (auto simp: resolutions_def)
next
  fix n r t
  assume s: "step e st = remove_waiter n (promise r) r st"
    and t: "timers st (promise r) = Some t" "due t \<le> now st"
  then show ?thesis by (auto simp: resolutions_def)
qed

lemma resolved_stable:
  "wf st \<Longrightarrow> p < next_id st \<Longrightarrow> timers st p = None \<Longrightarrow>
   resolutions p (run es st) = resolutions p st \<and> timers (run es st) p = None"
proof (induction es arbitrary: st)
  case Nil
  then show ?case by simp
next
  case (Cons e es)
  from step_timers [OF Cons.prems(1,2), of e] Cons.prems(3)
  have t: "timers (step e st) p = None" by auto
  from step_resolutions [OF Cons.prems(1), of p e] Cons.prems(3)
  have r: "resolutions p (step e st) = resolutions p st" by auto
  from Cons.prems(2) step_next_id [of st e] have "p < next_id (step e st)" by simp
  from Cons.IH [OF wf_step [OF Cons.prems(1)] this t] r show ?case by simp
qed

lemma armed_until_resolved:
  "wf st \<Longrightarrow> timers st p = Some tm \<Longrightarrow>
   (timers (run es st) p = Some tm \<and> resolutions p (run es st) = []) \<or>
   (timers (run es st) p = None \<and> length (resolutions p (run es st)) = 1 \<and>
    (\<forall>r\<in>set (resolutions p (run es st)). outcome r = None \<longrightarrow> due tm \<le> now (run es st)))"
proof (induction es arbitrary: st)
  case Nil
  from wf_resolutions [OF Nil(1), of p] Nil(2) show ?case by simp
next
  case (Cons e es)
  from Cons.prems have p: "p < next_id st" by (simp add: wf_def wf_timers_def)
  from wf_resolutions [OF Cons.prems(1), of p] Cons.prems(2)
  have none: "resolutions p st = []" by simp
  have wf': "wf (step e st)" using Cons.prems(1) by (rule wf_step)
  from step_timers [OF Cons.prems(1) p, of e]
  show ?case
  proof
    assume "timers (step e st) p = timers st p"
    with Cons.prems(2) have "timers (step e st) p = Some tm" by simp
    from Cons.IH [OF wf' this] show ?thesis by simp
  next
    assume a: "timers (step e st) p = None \<and>
      (\<exists>n r. step e st = remove_waiter n p r st \<and> promise r = p)"
    then have t: "timers (step e st) p = None" by simp
    from p step_next_id [of st e] have p': "p < next_id (step e st)" by simp
    from resolved_stable [OF wf' p' t, of es]
    have st: "resolutions p (run es (step e st)) = resolutions p (step e st)"
      "timers (run es (step e st)) p = None" by simp_all
    from wf_resolutions [OF wf', of p] p' t
    have len: "length (resolutions p (step e st)) = 1" by simp
    have "\<forall>r\<in>set (resolutions p (step e st)). outcome r = None \<longrightarrow>
        due tm \<le> now (run es (step e st))"
    proof (intro ballI impI)
      fix r assume r: "r \<in> set (resolutions p (step e st))" "outcome r = None"
      from step_resolutions [OF Cons.prems(1), of p e] none len
      obtain r' where r': "resolutions p (step e st) = [r']"
        "outcome r' = None \<longrightarrow> (\<exists>t. timers st p = Some t \<and> due t \<le> now st)"
        by auto
      with r Cons.prems(2) have "due tm \<le> now st" by auto
      with step_now [of st e] run_now [of "step e st" es]
      show "due tm \<le> now (run es (step e st))" by simp
    qed
    with st len show ?thesis by simp
  qed
qed

section \<open>The result of parseInt\<close>

lemma parseInt_no_digit:
  assumes "\<forall>c\<in>set s. \<not> is_digit c"
  shows "parseInt s = NaN"
proof -
  let ?s = "dropWhile is_white s"
  let ?s' = "if ?s \<noteq> [] \<and> (hd ?s = CHR ''+'' \<or> hd ?s = CHR ''-'') then tl ?s else ?s"
  have "set ?s \<subseteq> set s" by (auto dest: set_dropWhileD)
  moreover have "set (tl xs) \<subseteq> set xs" for xs :: string by (cases xs) auto
  ultimately have "set ?s' \<subseteq> set s" by auto
  with assms have "\<forall>c\<in>set ?s'. \<not> is_digit c" by blast
  then have "takeWhile is_digit ?s' = []" by (cases ?s') auto
  then show ?thesis by (simp add: parseInt_def Let_def)
qed

lemma digit_not_white: "is_digit c \<Longrightarrow> \<not> is_white c \<and> c \<noteq> CHR ''+'' \<and> c \<noteq> CHR ''-''"
  by (auto simp: is_digit_def is_white_def)

lemma parseInt_digits:
  assumes "s \<noteq> []" "\<forall>c\<in>set s. is_digit c"
  shows "parseInt s = Num (int (digits_value s))"
proof -
  from assms obtain c cs where s: "s = c # cs" by (cases s) auto
  with assms have c: "is_digit c" by simp
  from digit_not_white [OF c] s have d: "dropWhile is_white s = s" by simp
  from assms(2) have t: "takeWhile is_digit s = s" by (simp add: takeWhile_eq_all_conv)
  from digit_not_white [OF c] s have "hd s \<noteq> CHR ''+''" "hd s \<noteq> CHR ''-''" by simp_all
  with assms(1) show ?thesis by (simp add: parseInt_def Let_def d t)
qed

section \<open>Arbitration and expiry\<close>

lemma timer_delay_ge: "k \<le> TIMEOUT_MAX \<Longrightarrow> k \<le> int (timer_delay (Num k))"
  by simp

lemma promise_value_cases:
  "promise_value p st = None \<longleftrightarrow> resolutions p st = []"
  "promise_value p st = Some v \<longleftrightarrow> (\<exists>r rs. resolutions p st = r # rs \<and> outcome r = v)"
  by (auto simp: promise_value_def split: list.splits)

lemma delivered_state_eval:
  "delivered_state =
   \<lparr>queues = [''orders'' \<mapsto> \<lparr>messages = [], waitingConsumers = []\<rparr>],
     timers = Map.empty,
     trace = [\<lparr>promise = 0, origin = FromResolve, outcome = Some (order ''7'' ''hello'')\<rparr>],
     next_id = Suc 0, now = 0\<rparr>"
  by (simp add: delivered_state_def exec_defs fun_eq_iff)

text \<open>
  Claim C5. In every state reached from the empty registry, a step of the process (a
  submit, a receive, the callback of a due timer, the passing of time) records at most
  one resolution, and only of a waiter that this step removes: the waiter is in a
  waiter list before the step and in none after it. A submit that finds no waiter
  records no resolution. An operation that comes for a waiter already gone from the
  list does nothing to it: the waiter's timer is then no longer armed (\<open>addMessage\<close>
  clears the timer of the waiter it serves, and an armed timer has its waiter in the
  list of its queue), so the runtime does not run its callback and the state is
  unchanged, and no step whatever adds a resolution of that waiter.
\<close>

theorem resolution_only_with_removal:
  assumes "st = run es init"
  shows "(trace (step e st) = trace st \<or>
          (\<exists>n r. trace (step e st) = trace st @ [r] \<and>
             promise r \<in> timeoutId ` set (waiters st n) \<and>
             (\<forall>n'. promise r \<notin> timeoutId ` set (waiters (step e st) n')))) \<and>
         (\<forall>n m. waiters st n = [] \<longrightarrow> trace (addMessage n m st) = trace st) \<and>
         (\<forall>tid t. timers st tid = Some t \<longrightarrow> tid \<in> timeoutId ` set (waiters st (owner t))) \<and>
         (\<forall>tid. timers st tid = None \<longrightarrow> fire tid st = st) \<and>
         (\<forall>p. (\<forall>n. p \<notin> timeoutId ` set (waiters st n)) \<longrightarrow>
              timers st p = None \<and> fire p st = st \<and>
              resolutions p (step e st) = resolutions p st)"
proof -
  from assms have wf: "wf st" by (simp add: wf_run wf_init)
  have 1: "trace (step e st) = trace st \<or>
      (\<exists>n r. trace (step e st) = trace st @ [r] \<and>
         promise r \<in> timeoutId ` set (waiters st n) \<and>
         (\<forall>n'. promise r \<notin> timeoutId ` set (waiters (step e st) n')))"
  proof (cases "trace (step e st) = trace st")
    case True
    then show ?thesis by simp
  next
    case False
    with step_trace [OF wf, of e] obtain n r
      where s: "step e st = remove_waiter n (promise r) r st"
        and w: "promise r \<in> timeoutId ` set (waiters st n)"
      by blast
    from w obtain c where c: "c \<in> set (waiters st n)" "timeoutId c = promise r" by auto
    have "promise r \<notin> timeoutId ` set (waiters (step e st) n')" for n'
    proof (cases "n' = n")
      case True
      then show ?thesis by (auto simp: s)
    next
      case False
      have "timeoutId c' \<noteq> promise r" if "c' \<in> set (waiters st n')" for c'
        using wf_waiters_owner [OF wf that c(1)] c(2) False by auto
      then have "promise r \<notin> timeoutId ` set (waiters st n')" by (metis imageE)
      with False show ?thesis by (simp add: s)
    qed
    with s w show ?thesis by auto
  qed
  have 2: "\<forall>n m. waiters st n = [] \<longrightarrow> trace (addMessage n m st) = trace st"
    by (simp add: addMessage_enqueue)
  have 3: "\<forall>tid t. timers st tid = Some t \<longrightarrow> tid \<in> timeoutId ` set (waiters st (owner t))"
    using wf by (simp add: wf_def wf_timers_def)
  have 4: "\<forall>tid. timers st tid = None \<longrightarrow> fire tid st = st"
    by (simp add: fire_idle)
  have 5: "\<forall>p. (\<forall>n. p \<notin> timeoutId ` set (waiters st n)) \<longrightarrow>
      timers st p = None \<and> fire p st = st \<and> resolutions p (step e st) = resolutions p st"
  proof (intro allI impI)
    fix p assume gone: "\<forall>n. p \<notin> timeoutId ` set (waiters st n)"
    have t: "timers st p = None"
    proof (cases "timers st p")
      case None
      then show ?thesis .
    next
      case (Some t)
      with 3 have "p \<in> timeoutId ` set (waiters st (owner t))" by blast
      with gone show ?thesis by blast
    qed
    moreover from t have "fire p st = st" by (simp add: fire_idle)
    moreover from step_resolutions [OF wf, of p e] t
    have "resolutions p (step e st) = resolutions p st" by auto
    ultimately show "timers st p = None \<and> fire p st = st \<and>
      resolutions p (step e st) = resolutions p st" by simp
  qed
  from 1 2 3 4 5 show ?thesis by blast
qed

theorem resolution_only_with_removal_witness:
  "trace (step (Submit ''orders'' (order ''7'' ''hello'')) two_waiting) =
     trace two_waiting @
       [\<lparr>promise = 0, origin = FromResolve, outcome = Some (order ''7'' ''hello'')\<rparr>] \<and>
   0 \<in> timeoutId ` set (waiters two_waiting ''orders'') \<and>
   0 \<notin> timeoutId ` set
      (waiters (step (Submit ''orders'' (order ''7'' ''hello'')) two_waiting) ''orders'') \<and>
   timers two_waiting (Suc 0) = Some \<lparr>due = 100, owner = ''orders''\<rparr> \<and>
   Suc 0 \<in> timeoutId ` set (waiters two_waiting ''orders'') \<and>
   waiters delivered_state ''orders'' = [] \<and>
   trace (addMessage ''orders'' (order ''8'' ''next'') delivered_state) = trace delivered_state \<and>
   timers delivered_state 0 = None \<and>
   fire 0 delivered_state = delivered_state \<and>
   (\<forall>n. 0 \<notin> timeoutId ` set (waiters delivered_state n)) \<and>
   resolutions 0 (step (Submit ''orders'' (order ''8'' ''next'')) delivered_state) =
     resolutions 0 delivered_state \<and>
   resolutions 0 delivered_state =
     [\<lparr>promise = 0, origin = FromResolve, outcome = Some (order ''7'' ''hello'')\<rparr>]"
proof -
  have a: "trace (step (Submit ''orders'' (order ''7'' ''hello'')) two_waiting) =
      trace two_waiting @
        [\<lparr>promise = 0, origin = FromResolve, outcome = Some (order ''7'' ''hello'')\<rparr>]"
    "0 \<in> timeoutId ` set (waiters two_waiting ''orders'')"
    "timers two_waiting (Suc 0) = Some \<lparr>due = 100, owner = ''orders''\<rparr>"
    by (simp_all add: two_waiting_eval exec_defs)
  have b: "waiters delivered_state ''orders'' = []" "timers delivered_state 0 = None"
    by (simp_all add: delivered_state_eval queue_of_def)
  note t1 = resolution_only_with_removal [OF two_waiting_def,
      of "Submit ''orders'' (order ''7'' ''hello'')"]
  note t2 = resolution_only_with_removal [OF delivered_state_def]
  note t3 = resolution_only_with_removal [OF delivered_state_def,
      of "Submit ''orders'' (order ''8'' ''next'')"]
  have g: "\<forall>n. 0 \<notin> timeoutId ` set (waiters delivered_state n)"
    by (simp add: delivered_state_eval queue_of_def)
  have r: "resolutions 0 delivered_state =
      [\<lparr>promise = 0, origin = FromResolve, outcome = Some (order ''7'' ''hello'')\<rparr>]"
    by (simp add: delivered_state_eval resolutions_def)
  from t3 g have h: "resolutions 0 (step (Submit ''orders'' (order ''8'' ''next''))
      delivered_state) = resolutions 0 delivered_state" by blast
  from t1 have "trace (step (Submit ''orders'' (order ''7'' ''hello'')) two_waiting) =
        trace two_waiting \<or>
      (\<exists>r. trace (step (Submit ''orders'' (order ''7'' ''hello'')) two_waiting) =
          trace two_waiting @ [r] \<and>
        promise r \<notin> timeoutId ` set
          (waiters (step (Submit ''orders'' (order ''7'' ''hello'')) two_waiting) ''orders''))"
    by blast
  with a(1) have c1: "0 \<notin> timeoutId ` set
      (waiters (step (Submit ''orders'' (order ''7'' ''hello'')) two_waiting) ''orders'')"
    by auto
  from t1 have "\<forall>tid t. timers two_waiting tid = Some t \<longrightarrow>
      tid \<in> timeoutId ` set (waiters two_waiting (owner t))" by blast
  with a(3) have "Suc 0 \<in> timeoutId ` set
      (waiters two_waiting (owner \<lparr>due = 100, owner = ''orders''\<rparr>))" by blast
  then have c2: "Suc 0 \<in> timeoutId ` set (waiters two_waiting ''orders'')" by simp
  note c = c1 c2
  from t2 b have d: "trace (addMessage ''orders'' (order ''8'' ''next'') delivered_state) =
      trace delivered_state" "fire 0 delivered_state = delivered_state"
    by auto
  from a b c d g h r show ?thesis by simp
qed

text \<open>
  Claim C6 at a timeout above \<open>2 ^ 31 - 1\<close>. \<open>getMessage\<close> passes its timeout to
  \<open>setTimeout\<close> as it is, and the runtime arms a timer with such a delay for one
  millisecond. The request \<open>GET /api/orders?timeout=2147483648\<close> on an empty queue,
  with no submit, registers waiter \<open>0\<close>, and the waiter's promise holds \<open>null\<close> when
  the clock shows \<open>1\<close>: the receive resolves with none 2147483647 milliseconds
  before its timeout has elapsed, against the claim and against the comment of
  \<open>getMessage\<close> (wait up to \<open>timeout\<close> ms; if the timeout expires, return null).
\<close>

theorem large_timeout_expires_early:
  "get_timeout (Some ''2147483648'') = Num 2147483648 \<and>
   fst (get_handler ''orders'' (Some ''2147483648'') init) = Pending 0 \<and>
   now early_expiry = 1 \<and>
   promise_value 0 early_expiry = Some None"
proof -
  have t: "get_timeout (Some ''2147483648'') = Num 2147483648"
    by (simp add: get_timeout_def parseInt_def is_white_def is_digit_def digits_value_def
        digit_value_def)
  then show ?thesis
    by (simp add: early_expiry_def get_handler_def exec_defs)
qed

text \<open>
  What holds of an expiry for every timeout. Let a receive with timeout \<open>t\<close> on an
  empty backlog, in a state reached from the empty registry, create the waiter \<open>p\<close>,
  and let any events follow. If \<open>p\<close> has resolved with \<open>null\<close>, the delay for which the
  runtime armed the timer has elapsed since the call, and so has \<open>t\<close> itself whenever
  \<open>t\<close> is a number not above \<open>2147483647\<close>. If \<open>p\<close> is still pending when that delay
  has elapsed, its timer's callback resolves it with \<open>null\<close> and leaves it in no waiter
  list. Once \<open>p\<close> has resolved with \<open>null\<close> it is in no waiter list, and a later submit
  to any queue makes no call of its \<open>resolve\<close>.
\<close>

theorem expiry_resolves_none:
  assumes "st0 = run es0 init" and "getMessage n t st0 = (Pending p, st1)"
    and "st = run es st1"
  shows "(promise_value p st = Some None \<longrightarrow> now st0 + timer_delay t \<le> now st) \<and>
         (\<forall>k. t = Num k \<and> k \<le> TIMEOUT_MAX \<and> promise_value p st = Some None \<longrightarrow>
              int (now st0) + k \<le> int (now st)) \<and>
         (promise_value p st = None \<and> now st0 + timer_delay t \<le> now st \<longrightarrow>
            promise_value p (fire p st) = Some None \<and>
            (\<forall>n'. p \<notin> timeoutId ` set (waiters (fire p st) n'))) \<and>
         (promise_value p st = Some None \<longrightarrow>
            (\<forall>n'. p \<notin> timeoutId ` set (waiters st n')) \<and>
            (\<forall>n' m. resolutions p (addMessage n' m st) = resolutions p st))"
proof -
  let ?tm = "\<lparr>due = now st0 + timer_delay t, owner = n\<rparr>"
  have st1: "st1 = step (Receive n t) st0" using assms(2) by simp
  from assms(1) have "wf st0" by (simp add: wf_run wf_init)
  then have wf1: "wf st1" unfolding st1 by (rule wf_step)
  then have wf: "wf st" unfolding assms(3) by (rule wf_run)
  have armed: "timers st1 p = Some ?tm" using getMessage_Pending(4) [OF assms(2)] .
  from getMessage_Pending(3) [OF assms(2)] run_next_id [of st1 es] assms(3)
  have p: "p < next_id st" by simp
  note life = armed_until_resolved [OF wf1 armed, of es, folded assms(3)]
  have gone: "p \<notin> timeoutId ` set (waiters st n')" if "timers st p = None" for n'
  proof
    assume "p \<in> timeoutId ` set (waiters st n')"
    then obtain c where "c \<in> set (waiters st n')" "timeoutId c = p" by auto
    with wf_waiterD(3) [OF wf this(1)] that show False by auto
  qed
  have 1: "promise_value p st = Some None \<longrightarrow> now st0 + timer_delay t \<le> now st"
    using life by (auto simp: promise_value_cases)
  have 2: "\<forall>k. t = Num k \<and> k \<le> TIMEOUT_MAX \<and> promise_value p st = Some None \<longrightarrow>
      int (now st0) + k \<le> int (now st)"
  proof (intro allI impI)
    fix k assume k: "t = Num k \<and> k \<le> TIMEOUT_MAX \<and> promise_value p st = Some None"
    with 1 have "now st0 + timer_delay (Num k) \<le> now st" by simp
    moreover from k timer_delay_ge have "k \<le> int (timer_delay (Num k))" by blast
    ultimately show "int (now st0) + k \<le> int (now st)" by linarith
  qed
  have 3: "promise_value p st = None \<and> now st0 + timer_delay t \<le> now st \<longrightarrow>
      promise_value p (fire p st) = Some None \<and>
      (\<forall>n'. p \<notin> timeoutId ` set (waiters (fire p st) n'))"
  proof (intro impI)
    assume a: "promise_value p st = None \<and> now st0 + timer_delay t \<le> now st"
    then have none: "resolutions p st = []" by (simp add: promise_value_cases)
    with life have t: "timers st p = Some ?tm" by auto
    from a have due: "due ?tm \<le> now st" by simp
    let ?r = "\<lparr>promise = p, origin = FromTimer, outcome = None\<rparr>"
    have f: "fire p st = remove_waiter n p ?r st"
      using fire_remove_waiter [OF wf t due] by simp
    have "promise_value p (fire p st) = Some None"
      using none by (simp add: f promise_value_def resolutions_def)
    moreover have "p \<notin> timeoutId ` set (waiters (fire p st) n')" for n'
    proof -
      have "timers (fire p st) p = None" by (simp add: f)
      moreover have "wf (fire p st)" using wf by (rule wf_fire)
      ultimately show ?thesis
        using wf_waiterD(3) [of "fire p st" _ n'] by force
    qed
    ultimately show "promise_value p (fire p st) = Some None \<and>
      (\<forall>n'. p \<notin> timeoutId ` set (waiters (fire p st) n'))" by blast
  qed
  have 4: "promise_value p st = Some None \<longrightarrow>
      (\<forall>n'. p \<notin> timeoutId ` set (waiters st n')) \<and>
      (\<forall>n' m. resolutions p (addMessage n' m st) = resolutions p st)"
  proof (intro impI)
    assume "promise_value p st = Some None"
    then have "resolutions p st \<noteq> []" by (auto simp: promise_value_cases)
    with life have t: "timers st p = None" by auto
    have "resolutions p (addMessage n' m st) = resolutions p st" for n' m
      using resolved_stable [OF wf p t, of "[Submit n' m]"] by simp
    with gone [OF t] show "(\<forall>n'. p \<notin> timeoutId ` set (waiters st n')) \<and>
      (\<forall>n' m. resolutions p (addMessage n' m st) = resolutions p st)" by blast
  qed
  from 1 2 3 4 show ?thesis by blast
qed

lemma expired_state_eval:
  "expired_state =
   \<lparr>queues = [''orders'' \<mapsto> \<lparr>messages = [], waitingConsumers = []\<rparr>],
     timers = Map.empty,
     trace = [\<lparr>promise = 0, origin = FromTimer, outcome = None\<rparr>],
     next_id = Suc 0, now = 100\<rparr>"
  by (simp add: expired_state_def exec_defs fun_eq_iff)

lemma overdue_state_eval:
  "overdue_state =
   \<lparr>queues = [''orders'' \<mapsto> \<lparr>messages = [], waitingConsumers =
        [\<lparr>resolve = OnMessage 0, reject = OnReject 0, timeoutId = 0\<rparr>]\<rparr>],
     timers = [0 \<mapsto> \<lparr>due = 100, owner = ''orders''\<rparr>],
     trace = [], next_id = Suc 0, now = 100\<rparr>"
  by (simp add: overdue_state_def exec_defs fun_eq_iff)

theorem expiry_resolves_none_witness:
  "fst (getMessage ''orders'' (Num 100) init) = Pending 0 \<and>
   (100::int) \<le> TIMEOUT_MAX \<and>
   promise_value 0 expired_state = Some None \<and>
   now init + timer_delay (Num 100) \<le> now expired_state \<and>
   int (now init) + 100 \<le> int (now expired_state) \<and>
   0 \<notin> timeoutId ` set (waiters expired_state ''orders'') \<and>
   resolutions 0 (addMessage ''orders'' (order ''7'' ''hello'') expired_state) =
     resolutions 0 expired_state \<and>
   backlog (addMessage ''orders'' (order ''7'' ''hello'') expired_state) ''orders'' =
     [order ''7'' ''hello''] \<and>
   promise_value 0 overdue_state = None \<and>
   now init + timer_delay (Num 100) \<le> now overdue_state \<and>
   promise_value 0 (fire 0 overdue_state) = Some None \<and>
   0 \<notin> timeoutId ` set (waiters (fire 0 overdue_state) ''orders'')"
proof -
  have i: "init = run [] init" by simp
  have g: "getMessage ''orders'' (Num 100) init =
      (Pending 0, snd (getMessage ''orders'' (Num 100) init))"
    by (simp add: exec_defs)
  have g': "fst (getMessage ''orders'' (Num 100) init) = Pending 0"
    by (simp add: exec_defs)
  have k: "(100::int) \<le> TIMEOUT_MAX" by (simp add: TIMEOUT_MAX_def)
  have e: "promise_value 0 expired_state = Some None"
    "backlog (addMessage ''orders'' (order ''7'' ''hello'') expired_state) ''orders'' =
       [order ''7'' ''hello'']"
    by (simp_all add: expired_state_eval exec_defs)
  have o: "promise_value 0 overdue_state = None"
    "now init + timer_delay (Num 100) \<le> now overdue_state"
    by (simp_all add: overdue_state_eval exec_defs)
  note t1 = expiry_resolves_none [OF i g expired_state_def]
  note t2 = expiry_resolves_none [OF i g overdue_state_def]
  from t1 e(1) have 1: "now init + timer_delay (Num 100) \<le> now expired_state" by blast
  from t1 e(1) k have 2: "int (now init) + 100 \<le> int (now expired_state)" by blast
  from t1 e(1) have 3: "0 \<notin> timeoutId ` set (waiters expired_state ''orders'')"
    "resolutions 0 (addMessage ''orders'' (order ''7'' ''hello'') expired_state) =
       resolutions 0 expired_state" by blast+
  from t2 o have 4: "promise_value 0 (fire 0 overdue_state) = Some None"
    "0 \<notin> timeoutId ` set (waiters (fire 0 overdue_state) ''orders'')" by blast+
  from g' k e o 1 2 3 4 show ?thesis by simp
qed

section \<open>The POST handler\<close>

lemma addMessage_fields:
  "next_id (addMessage n m st) = next_id st"
  "now (addMessage n m st) = now st"
  "timers (addMessage n m st) p \<noteq> None \<Longrightarrow> timers st p \<noteq> None"
proof -
  show "next_id (addMessage n m st) = next_id st" "now (addMessage n m st) = now st"
    by (cases "waiters st n"; cases "resolve (hd (waiters st n))";
        simp add: addMessage_enqueue addMessage_handoff resolve_promise_def)+
  show "timers (addMessage n m st) p \<noteq> None \<Longrightarrow> timers st p \<noteq> None"
    by (cases "waiters st n"; cases "resolve (hd (waiters st n))";
        simp add: addMessage_enqueue addMessage_handoff resolve_promise_def split: if_splits)
qed

text \<open>The handler answers with the id it was given and hands \<open>addMessage\<close> a message
  with that id; it gives out no timer number and arms no timer.\<close>

lemma post_handler_effect:
  "fst (post_handler n b uuid d st) = \<lparr>status = 200, success = True, messageId = uuid\<rparr>"
  "snd (post_handler n b uuid d st) =
     addMessage n \<lparr>msg_id = uuid, content = content_of b, timestamp = Some d\<rparr> st"
  "next_id (snd (post_handler n b uuid d st)) = next_id st"
  "timers (snd (post_handler n b uuid d st)) p \<noteq> None \<Longrightarrow> timers st p \<noteq> None"
  using addMessage_fields(3) [of n _ st p]
  by (simp_all add: post_handler_def addMessage_fields(1))

section \<open>The GET handler\<close>

text \<open>
  Claim C9, as stated, fails for a malformed timeout: \<open>?timeout=abc\<close> is truthy, so
  \<open>parseInt\<close> is applied and \<open>NaN\<close>, not \<open>10000\<close>, is what \<open>getMessage\<close> receives; the
  runtime then arms the waiter's timer for one millisecond.
\<close>

theorem malformed_timeout_reaches_core:
  "get_timeout (Some ''abc'') = NaN \<and>
   get_timeout (Some ''abc'') \<noteq> Num 10000 \<and>
   get_handler ''orders'' (Some ''abc'') init = getMessage ''orders'' NaN init \<and>
   timers (snd (get_handler ''orders'' (Some ''abc'') init)) 0 =
     Some \<lparr>due = 1, owner = ''orders''\<rparr>"
  by (simp add: get_handler_def get_timeout_def parseInt_def is_white_def is_digit_def exec_defs)

text \<open>
  Claim C9, amended. At the GET boundary a missing timeout query parameter (and an
  empty one) yields the default of 10000 milliseconds. Any other value is given to
  \<open>parseInt(_, 10)\<close> and the result reaches \<open>getMessage\<close> as it is: the number
  written, for a string of decimal digits, and \<open>NaN\<close>, not the default, for a string
  without a decimal digit.
\<close>

theorem timeout_default_only_when_missing:
  "get_timeout None = Num 10000 \<and>
   get_timeout (Some []) = Num 10000 \<and>
   (s \<noteq> [] \<longrightarrow> get_timeout (Some s) = parseInt s) \<and>
   (s \<noteq> [] \<and> (\<forall>c\<in>set s. is_digit c) \<longrightarrow> get_timeout (Some s) = Num (int (digits_value s))) \<and>
   (s \<noteq> [] \<and> (\<forall>c\<in>set s. \<not> is_digit c) \<longrightarrow> get_timeout (Some s) = NaN) \<and>
   get_handler n q st = getMessage n (get_timeout q) st"
  by (simp add: get_timeout_def get_handler_def parseInt_digits parseInt_no_digit)

theorem timeout_default_only_when_missing_witness:
  "get_timeout None = Num 10000 \<and>
   ''5000'' \<noteq> [] \<and> get_timeout (Some ''5000'') = Num 5000 \<and>
   ''abc'' \<noteq> [] \<and> get_timeout (Some ''abc'') = NaN \<and>
   fst (get_handler ''orders'' None init) = Pending 0 \<and>
   timers (snd (get_handler ''orders'' None init)) 0 = Some \<lparr>due = 10000, owner = ''orders''\<rparr>"
proof -
  have d: "\<forall>c\<in>set ''5000''. is_digit c" and n: "\<forall>c\<in>set ''abc''. \<not> is_digit c"
    by (simp_all add: is_digit_def)
  have v: "digits_value ''5000'' = 5000" by (simp add: digits_value_def digit_value_def)
  have e: "''5000'' \<noteq> []" "''abc'' \<noteq> []" by simp_all
  note five = timeout_default_only_when_missing [of "''5000''" "''orders''" None init]
  note abc = timeout_default_only_when_missing [of "''abc''" "''orders''" None init]
  from five have 0: "get_timeout None = Num 10000" by blast
  from five d e(1) have "get_timeout (Some ''5000'') = Num (int (digits_value ''5000''))"
    by blast
  with v have 1: "get_timeout (Some ''5000'') = Num 5000" by simp
  from abc n e(2) have 2: "get_timeout (Some ''abc'') = NaN" by blast
  from five have "get_handler ''orders'' None init =
      getMessage ''orders'' (get_timeout None) init" by blast
  with 0 have 3: "get_handler ''orders'' None init = getMessage ''orders'' (Num 10000) init"
    by simp
  have 4: "fst (getMessage ''orders'' (Num 10000) init) = Pending 0"
    "timers (snd (getMessage ''orders'' (Num 10000) init)) 0 =
       Some \<lparr>due = 10000, owner = ''orders''\<rparr>"
    by (simp_all add: exec_defs)
  from 0 1 2 3 4 show ?thesis by simp
qed

end
